theory Spec2Isabelle
  imports Main
begin

section \<open>Exceptions\<close>

text \<open>
  A Python exception is modelled by its class and its message. The source catches with
  \<^verbatim>\<open>except Exception\<close>, which matches every exception except the ones that derive
  from \<^verbatim>\<open>BaseException\<close> only (here \<^verbatim>\<open>KeyboardInterrupt\<close> and
  \<^verbatim>\<open>SystemExit\<close>); \<open>is_Exception\<close> is that \<^verbatim>\<open>isinstance(e, Exception)\<close> test.
\<close>

datatype exc_class =
    ValueError | ConnectionError | AttributeError | TypeError | KeyError
  | JSONDecodeError | UnicodeEncodeError | UnicodeDecodeError | RecursionError
  | OtherException
  | KeyboardInterrupt | SystemExit

datatype exn = Exn exc_class string

fun is_Exception :: "exn \<Rightarrow> bool" where
  "is_Exception (Exn c m) = (c \<noteq> KeyboardInterrupt \<and> c \<noteq> SystemExit)"

section \<open>Python values, text and bytes\<close>

text \<open>
  A \<^verbatim>\<open>str\<close> is a sequence of Unicode code points (naturals below \<open>0x110000\<close>), a
  \<^verbatim>\<open>bytes\<close> object a sequence of 8-bit characters. Payloads (\<^verbatim>\<open>Any\<close> in the source)
  are the values below; \<open>PObject c\<close> stands for an instance of any other class \<open>c\<close>.
  A float is given by the text that \<^verbatim>\<open>float.__repr__\<close> writes for it (\<^verbatim>\<open>1.5\<close>,
  \<^verbatim>\<open>1e+16\<close>, \<^verbatim>\<open>-0.0\<close>, \<^verbatim>\<open>inf\<close>, \<^verbatim>\<open>nan\<close>), which tells floats apart; the
  arithmetic of floats is not modelled.
\<close>

type_synonym str = "nat list"
type_synonym bytes = "char list"

definition ascii :: "string \<Rightarrow> str" where
  "ascii s = map of_char s"

datatype py =
    PNone | PBool bool | PInt int | PFloat str | PStr str
  | PList "py list" | PTuple "py list" | PDict "(py \<times> py) list"
  | PObject string

fun class_name :: "py \<Rightarrow> string" where
  "class_name PNone = ''NoneType''"
| "class_name (PBool b) = ''bool''"
| "class_name (PInt i) = ''int''"
| "class_name (PFloat r) = ''float''"
| "class_name (PStr s) = ''str''"
| "class_name (PList xs) = ''list''"
| "class_name (PTuple xs) = ''tuple''"
| "class_name (PDict kvs) = ''dict''"
| "class_name (PObject c) = c"

text \<open>Truth value testing, as \<^verbatim>\<open>if data\<close> does it.\<close>

fun truthy :: "py \<Rightarrow> bool" where
  "truthy PNone = False"
| "truthy (PBool b) = b"
| "truthy (PInt i) = (i \<noteq> 0)"
| "truthy (PFloat r) = (r \<noteq> ascii ''0.0'' \<and> r \<noteq> ascii ''-0.0'')"
| "truthy (PStr s) = (s \<noteq> [])"
| "truthy (PList xs) = (xs \<noteq> [])"
| "truthy (PTuple xs) = (xs \<noteq> [])"
| "truthy (PDict kvs) = (kvs \<noteq> [])"
| "truthy (PObject c) = True"

text \<open>\<^verbatim>\<open>Union[str, bytes]\<close>, the type of \<^verbatim>\<open>serialized_data\<close>.\<close>

datatype str_or_bytes = Str str | Bytes bytes

fun text_truthy :: "str_or_bytes \<Rightarrow> bool" where
  "text_truthy (Str s) = (s \<noteq> [])"
| "text_truthy (Bytes b) = (b \<noteq> [])"

subsection \<open>\<^verbatim>\<open>str.encode()\<close> and \<^verbatim>\<open>bytes.decode()\<close>: UTF-8\<close>

fun utf8_char :: "nat \<Rightarrow> nat list option" where
  "utf8_char c =
     (if c < 0x80 then Some [c]
      else if c < 0x800 then Some [0xC0 + c div 64, 0x80 + c mod 64]
      else if c < 0x10000 then
        (if 0xD800 \<le> c \<and> c < 0xE000 then None
         else Some [0xE0 + c div 4096, 0x80 + c div 64 mod 64, 0x80 + c mod 64])
      else if c < 0x110000 then
        Some [0xF0 + c div 262144, 0x80 + c div 4096 mod 64, 0x80 + c div 64 mod 64,
              0x80 + c mod 64]
      else None)"

fun utf8_encode :: "str \<Rightarrow> nat list option" where
  "utf8_encode [] = Some []"
| "utf8_encode (c # cs) =
     (case utf8_char c of
        None \<Rightarrow> None
      | Some bs \<Rightarrow> (case utf8_encode cs of None \<Rightarrow> None | Some r \<Rightarrow> Some (bs @ r)))"

definition encode :: "str \<Rightarrow> exn + bytes" where
  "encode s =
     (case utf8_encode s of
        None \<Rightarrow> Inl (Exn UnicodeEncodeError ''surrogates not allowed'')
      | Some bs \<Rightarrow> Inr (map char_of bs))"

definition cont :: "nat \<Rightarrow> bool" where
  "cont b = (0x80 \<le> b \<and> b < 0xC0)"

fun utf8_decode :: "nat list \<Rightarrow> str option" where
  "utf8_decode [] = Some []"
| "utf8_decode [b] = (if b < 0x80 then Some [b] else None)"
| "utf8_decode [b, b1] =
     (if b < 0x80 then map_option ((#) b) (utf8_decode [b1])
      else if 0xC2 \<le> b \<and> b < 0xE0 \<and> cont b1 then Some [(b - 0xC0) * 64 + (b1 - 0x80)]
      else None)"
| "utf8_decode [b, b1, b2] =
     (if b < 0x80 then map_option ((#) b) (utf8_decode [b1, b2])
      else if 0xC2 \<le> b \<and> b < 0xE0 \<and> cont b1 then
        map_option ((#) ((b - 0xC0) * 64 + (b1 - 0x80))) (utf8_decode [b2])
      else if 0xE0 \<le> b \<and> b < 0xF0 \<and> cont b1 \<and> cont b2 then
        (let c = (b - 0xE0) * 4096 + (b1 - 0x80) * 64 + (b2 - 0x80)
         in if c < 0x800 \<or> (0xD800 \<le> c \<and> c < 0xE000) then None else Some [c])
      else None)"
| "utf8_decode (b # b1 # b2 # b3 # bs) =
     (if b < 0x80 then map_option ((#) b) (utf8_decode (b1 # b2 # b3 # bs))
      else if 0xC2 \<le> b \<and> b < 0xE0 \<and> cont b1 then
        map_option ((#) ((b - 0xC0) * 64 + (b1 - 0x80))) (utf8_decode (b2 # b3 # bs))
      else if 0xE0 \<le> b \<and> b < 0xF0 \<and> cont b1 \<and> cont b2 then
        (let c = (b - 0xE0) * 4096 + (b1 - 0x80) * 64 + (b2 - 0x80)
         in if c < 0x800 \<or> (0xD800 \<le> c \<and> c < 0xE000) then None
            else map_option ((#) c) (utf8_decode (b3 # bs)))
      else if 0xF0 \<le> b \<and> b < 0xF5 \<and> cont b1 \<and> cont b2 \<and> cont b3 then
        (let c = (b - 0xF0) * 262144 + (b1 - 0x80) * 4096 + (b2 - 0x80) * 64 + (b3 - 0x80)
         in if c < 0x10000 \<or> 0x110000 \<le> c then None
            else map_option ((#) c) (utf8_decode bs))
      else None)"

definition decode :: "bytes \<Rightarrow> exn + str" where
  "decode b =
     (case utf8_decode (map of_char b) of
        None \<Rightarrow> Inl (Exn UnicodeDecodeError ''invalid utf-8'')
      | Some s \<Rightarrow> Inr s)"

subsection \<open>The interpreter\<close>

text \<open>
  What the codec takes from the interpreter it runs on: \<open>float_repr s\<close> is
  \<^verbatim>\<open>repr(float(s))\<close> for the text \<open>s\<close> of a number; \<open>max_str_digits\<close> is
  \<^verbatim>\<open>sys.get_int_max_str_digits()\<close>, the longest integer that \<^verbatim>\<open>str\<close> and \<^verbatim>\<open>int\<close>
  convert (\<open>0\<close> for no limit, also on interpreters that have none); \<open>encoder_depth\<close> and
  \<open>decoder_depth\<close> are how many lists and dictionaries inside each other the encoder and
  the decoder can enter before the interpreter raises \<^verbatim>\<open>RecursionError\<close>.
\<close>

record interpreter =
  float_repr :: "str \<Rightarrow> str"
  max_str_digits :: nat
  encoder_depth :: nat
  decoder_depth :: nat

subsection \<open>\<^verbatim>\<open>json.dumps\<close>\<close>

text \<open>
  The standard library's encoder with its default separators and the one keyword argument
  the source passes, \<^verbatim>\<open>ensure_ascii\<close> (default \<^verbatim>\<open>True\<close>). Lists and tuples both
  become arrays; dictionary keys that are \<^verbatim>\<open>int\<close>, \<^verbatim>\<open>float\<close>, \<^verbatim>\<open>bool\<close> or
  \<^verbatim>\<open>None\<close> are written as strings; any other key and any other object raises
  \<^verbatim>\<open>TypeError\<close>. A float is written as its \<^verbatim>\<open>repr\<close>, and as \<^verbatim>\<open>NaN\<close>,
  \<^verbatim>\<open>Infinity\<close> or \<^verbatim>\<open>-Infinity\<close> when it is no number. An integer longer than the
  interpreter's digit limit raises \<^verbatim>\<open>ValueError\<close>, and entering a list or dictionary
  beyond the depth the interpreter allows (the second argument of \<open>json_dumps\<close> counts it
  down) raises \<^verbatim>\<open>RecursionError\<close>.
\<close>

fun dec :: "nat \<Rightarrow> str" where
  "dec n = (if n < 10 then [48 + n] else dec (n div 10) @ [48 + n mod 10])"

declare dec.simps [simp del]

definition int_text :: "int \<Rightarrow> str" where
  "int_text i = (if i < 0 then 45 # dec (nat (- i)) else dec (nat i))"

definition too_long :: "interpreter \<Rightarrow> nat \<Rightarrow> bool" where
  "too_long I digits = (0 < max_str_digits I \<and> max_str_digits I < digits)"

definition digit_limit_error :: "exn + 'a" where
  "digit_limit_error =
     Inl (Exn ValueError ''Exceeds the limit for integer string conversion'')"

definition int_repr :: "interpreter \<Rightarrow> int \<Rightarrow> exn + str" where
  "int_repr I i =
     (if too_long I (length (dec (nat \<bar>i\<bar>))) then digit_limit_error else Inr (int_text i))"

definition float_text :: "str \<Rightarrow> str" where
  "float_text r =
     (if r = ascii ''nan'' then ascii ''NaN''
      else if r = ascii ''inf'' then ascii ''Infinity''
      else if r = ascii ''-inf'' then ascii ''-Infinity''
      else r)"

definition recursion_error :: "exn + 'a" where
  "recursion_error = Inl (Exn RecursionError ''maximum recursion depth exceeded'')"

definition hex_digit :: "nat \<Rightarrow> nat" where
  "hex_digit d = (if d < 10 then 48 + d else 87 + d)"

definition hex4_text :: "nat \<Rightarrow> str" where
  "hex4_text n =
     [hex_digit (n div 4096 mod 16), hex_digit (n div 256 mod 16),
      hex_digit (n div 16 mod 16), hex_digit (n mod 16)]"

definition u_escape :: "nat \<Rightarrow> str" where
  "u_escape n = 92 # 117 # hex4_text n"

definition escape_char :: "bool \<Rightarrow> nat \<Rightarrow> str" where
  "escape_char ensure_ascii c =
     (if c = 34 then [92, 34]
      else if c = 92 then [92, 92]
      else if c = 8 then [92, 98]
      else if c = 12 then [92, 102]
      else if c = 10 then [92, 110]
      else if c = 13 then [92, 114]
      else if c = 9 then [92, 116]
      else if c < 32 then u_escape c
      else if ensure_ascii \<and> 126 < c then
        (if c < 0x10000 then u_escape c
         else u_escape (0xD800 + (c - 0x10000) div 1024 mod 1024)
              @ u_escape (0xDC00 + (c - 0x10000) mod 1024))
      else [c])"

definition encode_string :: "bool \<Rightarrow> str \<Rightarrow> str" where
  "encode_string ensure_ascii s = 34 # concat (map (escape_char ensure_ascii) s) @ [34]"

fun key_text :: "interpreter \<Rightarrow> py \<Rightarrow> exn + str" where
  "key_text I (PStr s) = Inr s"
| "key_text I (PFloat r) = Inr (float_text r)"
| "key_text I (PBool b) = Inr (ascii (if b then ''true'' else ''false''))"
| "key_text I PNone = Inr (ascii ''null'')"
| "key_text I (PInt i) = int_repr I i"
| "key_text I k =
     Inl (Exn TypeError (''keys must be str, int, float, bool or None, not '' @ class_name k))"

fun json_dumps :: "interpreter \<Rightarrow> nat \<Rightarrow> bool \<Rightarrow> py \<Rightarrow> exn + str"
  and dumps_elems :: "interpreter \<Rightarrow> nat \<Rightarrow> bool \<Rightarrow> py list \<Rightarrow> exn + str"
  and dumps_items :: "interpreter \<Rightarrow> nat \<Rightarrow> bool \<Rightarrow> (py \<times> py) list \<Rightarrow> exn + str"
where
  "json_dumps I d a PNone = Inr (ascii ''null'')"
| "json_dumps I d a (PBool b) = Inr (ascii (if b then ''true'' else ''false''))"
| "json_dumps I d a (PInt i) = int_repr I i"
| "json_dumps I d a (PFloat r) = Inr (float_text r)"
| "json_dumps I d a (PStr s) = Inr (encode_string a s)"
| "json_dumps I d a (PList xs) =
     (if d = 0 then recursion_error
      else (case dumps_elems I (d - 1) a xs of
              Inl e \<Rightarrow> Inl e
            | Inr t \<Rightarrow> Inr ([91] @ t @ [93])))"
| "json_dumps I d a (PTuple xs) =
     (if d = 0 then recursion_error
      else (case dumps_elems I (d - 1) a xs of
              Inl e \<Rightarrow> Inl e
            | Inr t \<Rightarrow> Inr ([91] @ t @ [93])))"
| "json_dumps I d a (PDict kvs) =
     (if d = 0 then recursion_error
      else (case dumps_items I (d - 1) a kvs of
              Inl e \<Rightarrow> Inl e
            | Inr t \<Rightarrow> Inr ([123] @ t @ [125])))"
| "json_dumps I d a (PObject c) =
     Inl (Exn TypeError (''Object of type '' @ c @ '' is not JSON serializable''))"
| "dumps_elems I d a [] = Inr []"
| "dumps_elems I d a (x # xs) =
     (case json_dumps I d a x of
        Inl e \<Rightarrow> Inl e
      | Inr t \<Rightarrow>
          if xs = [] then Inr t
          else (case dumps_elems I d a xs of
                  Inl e \<Rightarrow> Inl e
                | Inr ts \<Rightarrow> Inr (t @ [44, 32] @ ts)))"
| "dumps_items I d a [] = Inr []"
| "dumps_items I d a ((k, v) # kvs) =
     (case key_text I k of
        Inl e \<Rightarrow> Inl e
      | Inr kt \<Rightarrow>
          (case json_dumps I d a v of
             Inl e \<Rightarrow> Inl e
           | Inr vt \<Rightarrow>
               if kvs = [] then Inr (encode_string a kt @ [58, 32] @ vt)
               else (case dumps_items I d a kvs of
                       Inl e \<Rightarrow> Inl e
                     | Inr ts \<Rightarrow> Inr (encode_string a kt @ [58, 32] @ vt @ [44, 32] @ ts))))"

subsection \<open>\<^verbatim>\<open>json.loads\<close>\<close>

text \<open>
  The standard library's decoder (its default, strict scanner): white space is blank, tab,
  line feed and carriage return; strings may not contain raw control characters; an
  escaped high surrogate followed by an escaped low surrogate is read as one code point;
  a repeated key keeps its first position and its last value. A number with a fraction
  or an exponent is a float, the one that the interpreter's \<^verbatim>\<open>float\<close> reads from its
  text, and so are \<^verbatim>\<open>NaN\<close>, \<^verbatim>\<open>Infinity\<close> and \<^verbatim>\<open>-Infinity\<close>; an integer longer than
  the interpreter's digit limit raises \<^verbatim>\<open>ValueError\<close>, and entering an array or object
  beyond the depth the interpreter allows (the third argument of \<open>parse_value\<close> counts
  it down) raises \<^verbatim>\<open>RecursionError\<close>. The recursion of the decoder is bounded by the
  length of the text, which is what the second argument of \<open>parse_value\<close> counts down
  from.
\<close>

definition syntax_error :: "string \<Rightarrow> exn + 'a" where
  "syntax_error m = Inl (Exn JSONDecodeError m)"

definition ws :: "nat \<Rightarrow> bool" where
  "ws c = (c = 32 \<or> c = 9 \<or> c = 10 \<or> c = 13)"

definition skip_ws :: "str \<Rightarrow> str" where
  "skip_ws s = dropWhile ws s"

definition digit :: "nat \<Rightarrow> bool" where
  "digit c = (48 \<le> c \<and> c \<le> 57)"

fun expect :: "nat \<Rightarrow> str \<Rightarrow> str option" where
  "expect c [] = None"
| "expect c (x # r) = (if x = c then Some r else None)"

definition hex_val :: "nat \<Rightarrow> nat option" where
  "hex_val c =
     (if 48 \<le> c \<and> c \<le> 57 then Some (c - 48)
      else if 97 \<le> c \<and> c \<le> 102 then Some (c - 87)
      else if 65 \<le> c \<and> c \<le> 70 then Some (c - 55)
      else None)"

fun hex4 :: "str \<Rightarrow> (nat \<times> str) option" where
  "hex4 (a # b # c # d # r) =
     (case (hex_val a, hex_val b, hex_val c, hex_val d) of
        (Some x, Some y, Some z, Some u) \<Rightarrow> Some (((x * 16 + y) * 16 + z) * 16 + u, r)
      | _ \<Rightarrow> None)"
| "hex4 s = None"

definition unescape :: "nat \<Rightarrow> nat option" where
  "unescape e =
     (if e = 34 then Some 34
      else if e = 92 then Some 92
      else if e = 47 then Some 47
      else if e = 98 then Some 8
      else if e = 102 then Some 12
      else if e = 110 then Some 10
      else if e = 114 then Some 13
      else if e = 116 then Some 9
      else None)"

definition cons_char :: "nat \<Rightarrow> (str \<times> str) option \<Rightarrow> (str \<times> str) option" where
  "cons_char x m = (case m of None \<Rightarrow> None | Some (s, r) \<Rightarrow> Some (x # s, r))"

text \<open>The text after an opening quote: the string's content and what follows its closing quote.\<close>

function scan_string :: "str \<Rightarrow> (str \<times> str) option" where
  "scan_string [] = None"
| "scan_string (c # cs) =
     (if c = 34 then Some ([], cs)
      else if c = 92 then
        (case cs of
           [] \<Rightarrow> None
         | e # r \<Rightarrow>
             if e = 117 then
               (case hex4 r of
                  None \<Rightarrow> None
                | Some (u, r1) \<Rightarrow>
                    if 0xD800 \<le> u \<and> u < 0xDC00 \<and> take 2 r1 = [92, 117] then
                      (case hex4 (drop 2 r1) of
                         None \<Rightarrow> None
                       | Some (u2, r2) \<Rightarrow>
                           if 0xDC00 \<le> u2 \<and> u2 < 0xE000 then
                             cons_char (0x10000 + (u - 0xD800) * 1024 + (u2 - 0xDC00))
                               (scan_string r2)
                           else cons_char u (scan_string r1))
                    else cons_char u (scan_string r1))
             else (case unescape e of
                     None \<Rightarrow> None
                   | Some x \<Rightarrow> cons_char x (scan_string r)))
      else if c < 32 then None
      else cons_char c (scan_string cs))"
  by pat_completeness auto
termination
  by (relation "measure length")
    (auto elim!: hex4.elims split: option.splits dest: arg_cong [where f = length])

declare scan_string.simps [simp del]

fun digits_val :: "nat \<Rightarrow> str \<Rightarrow> nat \<times> str" where
  "digits_val acc [] = (acc, [])"
| "digits_val acc (c # cs) =
     (if digit c then digits_val (acc * 10 + (c - 48)) cs else (acc, c # cs))"

fun parse_int :: "str \<Rightarrow> (nat \<times> str) option" where
  "parse_int [] = None"
| "parse_int (c # cs) =
     (if c = 48 then Some (0, cs)
      else if 49 \<le> c \<and> c \<le> 57 then Some (digits_val (c - 48) cs)
      else None)"

fun is_frac :: "str \<Rightarrow> bool" where
  "is_frac (p # d # r) = (p = 46 \<and> digit d)"
| "is_frac s = False"

fun is_exp :: "str \<Rightarrow> bool" where
  "is_exp (e # d # r) =
     ((e = 101 \<or> e = 69) \<and>
      (digit d \<or> ((d = 43 \<or> d = 45) \<and> (case r of [] \<Rightarrow> False | d2 # r2 \<Rightarrow> digit d2))))"
| "is_exp s = False"

text \<open>What follows the fraction and what follows the exponent of a number, if it has one.\<close>

fun skip_frac :: "str \<Rightarrow> str" where
  "skip_frac (p # d # r) = (if p = 46 \<and> digit d then dropWhile digit r else p # d # r)"
| "skip_frac s = s"

fun skip_exp :: "str \<Rightarrow> str" where
  "skip_exp (e # d # r) =
     (if e = 101 \<or> e = 69 then
        (if digit d then dropWhile digit r
         else if d = 43 \<or> d = 45 then
           (case r of
              [] \<Rightarrow> e # d # r
            | d2 # r2 \<Rightarrow> if digit d2 then dropWhile digit r2 else e # d # r)
         else e # d # r)
      else e # d # r)"
| "skip_exp s = s"

text \<open>
  A number at the head of the text: \<open>None\<close> when there is none. The text of a float is
  what the number takes of \<open>s\<close>; the digits of an integer are what \<open>parse_int\<close> takes.
\<close>

definition unsigned :: "str \<Rightarrow> str" where
  "unsigned s = (case expect 45 s of None \<Rightarrow> s | Some r \<Rightarrow> r)"

definition parse_number :: "interpreter \<Rightarrow> str \<Rightarrow> ((exn + (py \<times> str)) option)" where
  "parse_number I s =
     (case parse_int (unsigned s) of
        None \<Rightarrow> None
      | Some (n, r) \<Rightarrow>
          if is_frac r \<or> is_exp r then
            Some (Inr (PFloat (float_repr I
                         (take (length s - length (skip_exp (skip_frac r))) s)),
                       skip_exp (skip_frac r)))
          else if too_long I (length (unsigned s) - length r) then Some digit_limit_error
          else Some (Inr (PInt (if expect 45 s = None then int n else - int n), r)))"

fun dict_set :: "py \<Rightarrow> py \<Rightarrow> (py \<times> py) list \<Rightarrow> (py \<times> py) list" where
  "dict_set k v [] = [(k, v)]"
| "dict_set k v ((k', v') # kvs) =
     (if k' = k then (k, v) # kvs else (k', v') # dict_set k v kvs)"

definition starts_with :: "string \<Rightarrow> str \<Rightarrow> bool" where
  "starts_with lit s = (take (length lit) s = ascii lit)"

fun parse_value :: "interpreter \<Rightarrow> nat \<Rightarrow> nat \<Rightarrow> str \<Rightarrow> exn + (py \<times> str)"
  and parse_elems :: "interpreter \<Rightarrow> nat \<Rightarrow> nat \<Rightarrow> py list \<Rightarrow> str \<Rightarrow> exn + (py \<times> str)"
  and parse_members ::
    "interpreter \<Rightarrow> nat \<Rightarrow> nat \<Rightarrow> (py \<times> py) list \<Rightarrow> str \<Rightarrow> exn + (py \<times> str)"
where
  "parse_value I 0 d s = syntax_error ''Expecting value''"
| "parse_value I (Suc f) d [] = syntax_error ''Expecting value''"
| "parse_value I (Suc f) d (c # cs) =
     (if c = 34 then
        (case scan_string cs of
           None \<Rightarrow> syntax_error ''Invalid string''
         | Some (x, r) \<Rightarrow> Inr (PStr x, r))
      else if c = 123 then
        (if d = 0 then recursion_error
         else (case expect 125 (skip_ws cs) of
                 Some r \<Rightarrow> Inr (PDict [], r)
               | None \<Rightarrow> parse_members I f (d - 1) [] (skip_ws cs)))
      else if c = 91 then
        (if d = 0 then recursion_error
         else (case expect 93 (skip_ws cs) of
                 Some r \<Rightarrow> Inr (PList [], r)
               | None \<Rightarrow> parse_elems I f (d - 1) [] (skip_ws cs)))
      else if starts_with ''null'' (c # cs) then Inr (PNone, drop 4 (c # cs))
      else if starts_with ''true'' (c # cs) then Inr (PBool True, drop 4 (c # cs))
      else if starts_with ''false'' (c # cs) then Inr (PBool False, drop 5 (c # cs))
      else
        (case parse_number I (c # cs) of
           Some res \<Rightarrow> res
         | None \<Rightarrow>
             if starts_with ''NaN'' (c # cs) then
               Inr (PFloat (ascii ''nan''), drop 3 (c # cs))
             else if starts_with ''Infinity'' (c # cs) then
               Inr (PFloat (ascii ''inf''), drop 8 (c # cs))
             else if starts_with ''-Infinity'' (c # cs) then
               Inr (PFloat (ascii ''-inf''), drop 9 (c # cs))
             else syntax_error ''Expecting value''))"
| "parse_elems I 0 d acc s = syntax_error ''Expecting value''"
| "parse_elems I (Suc f) d acc s =
     (case parse_value I f d s of
        Inl e \<Rightarrow> Inl e
      | Inr (v, r) \<Rightarrow>
          (case expect 93 (skip_ws r) of
             Some r1 \<Rightarrow> Inr (PList (acc @ [v]), r1)
           | None \<Rightarrow>
               (case expect 44 (skip_ws r) of
                  Some r1 \<Rightarrow> parse_elems I f d (acc @ [v]) (skip_ws r1)
                | None \<Rightarrow> syntax_error ''Expecting , delimiter'')))"
| "parse_members I 0 d acc s = syntax_error ''Expecting property name''"
| "parse_members I (Suc f) d acc s =
     (case expect 34 s of
        None \<Rightarrow> syntax_error ''Expecting property name enclosed in double quotes''
      | Some r \<Rightarrow>
          (case scan_string r of
             None \<Rightarrow> syntax_error ''Invalid string''
           | Some (k, r1) \<Rightarrow>
               (case expect 58 (skip_ws r1) of
                  None \<Rightarrow> syntax_error ''Expecting : delimiter''
                | Some r2 \<Rightarrow>
                    (case parse_value I f d (skip_ws r2) of
                       Inl e \<Rightarrow> Inl e
                     | Inr (v, r3) \<Rightarrow>
                         (case expect 125 (skip_ws r3) of
                            Some r4 \<Rightarrow> Inr (PDict (dict_set (PStr k) v acc), r4)
                          | None \<Rightarrow>
                              (case expect 44 (skip_ws r3) of
                                 Some r4 \<Rightarrow>
                                   parse_members I f d (dict_set (PStr k) v acc) (skip_ws r4)
                               | None \<Rightarrow> syntax_error ''Expecting , delimiter''))))))"

definition json_loads :: "interpreter \<Rightarrow> str \<Rightarrow> exn + py" where
  "json_loads I s =
     (case parse_value I (Suc (length s)) (decoder_depth I) (skip_ws s) of
        Inl e \<Rightarrow> Inl e
      | Inr (v, r) \<Rightarrow> if skip_ws r = [] then Inr v else syntax_error ''Extra data'')"

section \<open>Connection state, client state and the outside world\<close>

type_synonym channel = nat

text \<open>
  \<^verbatim>\<open>AMQPConnection\<close> is a collaborator of the client; the client reads its
  \<^verbatim>\<open>is_connected\<close> flag and its current \<^verbatim>\<open>channel\<close> (\<^verbatim>\<open>None\<close> while there is none).
\<close>

record connection =
  is_connected :: bool
  channel :: "channel option"


text \<open>
  One delivery as the client hands it to the application: the keyword arguments of the
  \<^verbatim>\<open>AMQPMessage\<close> constructor call in \<^verbatim>\<open>handle_message\<close>.
\<close>

record envelope =
  env_consumer_tag :: str
  delivery_tag :: nat
  env_exchange_name :: str
  env_routing_key :: str
  is_redeliver :: bool

record message =
  msg_connection :: connection
  msg_channel :: channel
  msg_envelope :: envelope
  msg_properties :: py
  msg_delivery_tag :: nat
  deserialization_method :: "bytes \<Rightarrow> exn + py"
  msg_queue_name :: str
  msg_serialized_data :: bytes

type_synonym kwargs = "(string \<times> message) list"

text \<open>
  The delegate is application code: each hook is a function giving the hook's outcome
  (a value, or the exception it raises).
\<close>

record delegate =
  on_before_start_consumption :: "str \<Rightarrow> exn + unit"
  on_consumption_start :: "py \<Rightarrow> exn + unit"
  on_queue_message :: "kwargs \<Rightarrow> exn + py"
  on_message_handle_error :: "exn \<Rightarrow> kwargs \<Rightarrow> exn + py"
  on_connection_error :: "exn \<Rightarrow> exn + unit"

record queue =
  host :: str
  username :: str
  password :: str
  virtual_host :: str
  heartbeat :: int
  loop :: nat
  delegate :: "delegate option"
  prefetch_count :: int
  max_message_length :: int
  connection :: connection
  seconds_between_conn_retry :: int
  is_running :: bool
  logger :: "string option"

text \<open>What the client asks of a channel, and what it tells its logger.\<close>

datatype request =
    Publish bytes str str
  | BasicQos int int bool
  | BasicConsume str str
  | BasicCancel py
  | BasicClientAck nat
  | BasicReject nat bool

record report =
  event :: string
  retry_count :: nat
  exc_traceback :: "string list"

text \<open>
  Everything the client does to its collaborators is recorded, in order, as a list of
  events: a call of \<^verbatim>\<open>connection._connect()\<close> with the exception it raised (if any), a
  call of \<^verbatim>\<open>asyncio.sleep\<close> with its argument, a call of \<^verbatim>\<open>logger.error\<close> with its
  argument, a call of a channel method, a call of a delegate hook.
\<close>

datatype event =
    Connect "exn option"
  | Sleep int
  | LoggerError report
  | Call channel request
  | OnBeforeStartConsumption str
  | OnConsumptionStart py
  | OnQueueMessage kwargs
  | OnMessageHandleError exn kwargs

text \<open>
  The outside world decides what the client cannot: whether the \<open>t\<close>-th call of
  \<^verbatim>\<open>_connect()\<close> raises or returns (and the connection it leaves), what other tasks do to
  \<^verbatim>\<open>is_running\<close> and to the connection while the guard is suspended in its \<open>t\<close>-th
  \<^verbatim>\<open>sleep\<close>, what \<^verbatim>\<open>traceback.format_tb\<close> prints for an exception, what the
  broker answers to a request on a channel, and the interpreter that the client runs on.
\<close>

record world =
  connect_result :: "nat \<Rightarrow> connection \<Rightarrow> exn + connection"
  asleep_running :: "nat \<Rightarrow> bool \<Rightarrow> bool"
  asleep_connection :: "nat \<Rightarrow> connection \<Rightarrow> connection"
  format_tb :: "exn \<Rightarrow> string list"
  channel_call :: "channel \<Rightarrow> request \<Rightarrow> exn + py"
  interpreter :: interpreter

definition asleep :: "world \<Rightarrow> nat \<Rightarrow> queue \<Rightarrow> queue" where
  "asleep w t q =
     q\<lparr>is_running := asleep_running w t (is_running q),
       connection := asleep_connection w t (connection q)\<rparr>"

section \<open>The connection guard: \<^verbatim>\<open>_ensure_connected\<close>\<close>

text \<open>
  The \<^verbatim>\<open>while\<close> loop of \<^verbatim>\<open>wrapper\<close>. Its state is the client \<open>q\<close>, the world's clock
  \<open>t\<close> (the number of \<^verbatim>\<open>_connect()\<close> calls so far), the local \<^verbatim>\<open>retries\<close> and the events
  so far. The loop may run forever; then the result is \<open>None\<close>. It leaves with \<open>None\<close> for
  an exception when control reaches \<^verbatim>\<open>return await coro(...)\<close>, and with \<open>Some e\<close> when
  \<^verbatim>\<open>_connect()\<close> raised an \<open>e\<close> that \<^verbatim>\<open>except Exception\<close> does not catch.
\<close>

partial_function (option) connect_loop ::
  "world \<Rightarrow> queue \<Rightarrow> nat \<Rightarrow> nat \<Rightarrow> event list
     \<Rightarrow> (exn option \<times> queue \<times> nat \<times> event list) option"
where
  "connect_loop w q t retries tr =
     (if is_running q \<and> \<not> is_connected (connection q) then
        (case connect_result w t (connection q) of
           Inr c \<Rightarrow> Some (None, q\<lparr>connection := c\<rparr>, Suc t, tr @ [Connect None])
         | Inl e \<Rightarrow>
             if is_Exception e then
               connect_loop w (asleep w t q) (Suc t) (Suc retries)
                 (tr @ [Connect (Some e), Sleep (seconds_between_conn_retry q)]
                     @ (if logger q \<noteq> None
                        then [LoggerError \<lparr>event = ''reconnect-failure'',
                                retry_count = Suc retries,
                                exc_traceback = format_tb w e\<rparr>]
                        else []))
             else Some (Some e, q, Suc t, tr @ [Connect (Some e)]))
      else Some (None, q, t, tr))"

text \<open>
  The wrapper: \<^verbatim>\<open>retries = 0\<close>, the loop, then \<^verbatim>\<open>return await coro(self, *args, **kwargs)\<close>.
  A wrapped coroutine reads the client and its arguments and gives its outcome with the
  events it caused.
\<close>

definition ensure_connected ::
  "(queue \<Rightarrow> 'a \<Rightarrow> (exn + 'r) \<times> event list) \<Rightarrow> world \<Rightarrow> nat \<Rightarrow> queue \<Rightarrow> 'a
     \<Rightarrow> ((exn + 'r) \<times> queue \<times> nat \<times> event list) option"
where
  "ensure_connected coro w t q args =
     (case connect_loop w q t 0 [] of
        None \<Rightarrow> None
      | Some (Some e, q', t', tr) \<Rightarrow> Some (Inl e, q', t', tr)
      | Some (None, q', t', tr) \<Rightarrow>
          (case coro q' args of (r, evs) \<Rightarrow> Some (r, q', t', tr @ evs)))"

section \<open>The consumption handler\<close>

record handler =
  h_delegate :: delegate
  h_queue_name :: str
  h_consumer_tag :: "py option"

definition ConsumptionHandler :: "delegate \<Rightarrow> str \<Rightarrow> handler" where
  "ConsumptionHandler d queue_name =
     \<lparr>h_delegate = d, h_queue_name = queue_name, h_consumer_tag = None\<rparr>"

text \<open>
  \<^verbatim>\<open>_handle_callback\<close>: \<^verbatim>\<open>try: return await callback(**kwargs)\<close>, and under
  \<^verbatim>\<open>except Exception as e\<close> the delegate's \<^verbatim>\<open>on_message_handle_error(handler_error=e, **kwargs)\<close>.
\<close>

definition handle_callback ::
  "delegate \<Rightarrow> (kwargs \<Rightarrow> (exn + py) \<times> event list) \<Rightarrow> kwargs \<Rightarrow> (exn + py) \<times> event list"
where
  "handle_callback d callback kwargs =
     (case callback kwargs of
        (Inr v, evs) \<Rightarrow> (Inr v, evs)
      | (Inl e, evs) \<Rightarrow>
          if is_Exception e
          then (on_message_handle_error d e kwargs, evs @ [OnMessageHandleError e kwargs])
          else (Inl e, evs))"

text \<open>
  A task is a coroutine that the event loop has been given and has not run yet;
  \<open>run_task\<close> is the loop running it, and its outcome (a value or an exception) stays
  with the task. \<^verbatim>\<open>handle_message\<close> builds the message, wraps the delegate's
  \<^verbatim>\<open>on_queue_message\<close> in \<^verbatim>\<open>_handle_callback\<close> with \<^verbatim>\<open>msg=msg\<close>, and returns
  \<^verbatim>\<open>loop.create_task(callback)\<close>: the new task, which is also appended to the loop's
  pending tasks.
\<close>

datatype task = Task "unit \<Rightarrow> (exn + py) \<times> event list"

fun run_task :: "task \<Rightarrow> (exn + py) \<times> event list" where
  "run_task (Task c) = c ()"

definition call_on_queue_message :: "delegate \<Rightarrow> kwargs \<Rightarrow> (exn + py) \<times> event list" where
  "call_on_queue_message d kwargs = (on_queue_message d kwargs, [OnQueueMessage kwargs])"

section \<open>The queue client\<close>

definition serialize :: "world \<Rightarrow> py \<Rightarrow> bool \<Rightarrow> exn + str" where
  "serialize w body ensure_ascii =
     json_dumps (interpreter w) (encoder_depth (interpreter w)) ensure_ascii body"

definition deserialize :: "world \<Rightarrow> bytes \<Rightarrow> exn + py" where
  "deserialize w body =
     (case decode body of Inl e \<Rightarrow> Inl e | Inr s \<Rightarrow> json_loads (interpreter w) s)"

definition AMQPMessage ::
  "world \<Rightarrow> handler \<Rightarrow> queue \<Rightarrow> channel \<Rightarrow> bytes \<Rightarrow> envelope \<Rightarrow> py \<Rightarrow> message"
where
  "AMQPMessage w h q ch body env properties =
     \<lparr>msg_connection = connection q, msg_channel = ch, msg_envelope = env,
      msg_properties = properties, msg_delivery_tag = delivery_tag env,
      deserialization_method = deserialize w, msg_queue_name = h_queue_name h,
      msg_serialized_data = body\<rparr>"

definition handle_message ::
  "world \<Rightarrow> handler \<Rightarrow> queue \<Rightarrow> task list \<Rightarrow> channel \<Rightarrow> bytes \<Rightarrow> envelope \<Rightarrow> py
     \<Rightarrow> task \<times> task list"
where
  "handle_message w h q pending ch body env properties =
     (let msg = AMQPMessage w h q ch body env properties;
          callback = Task (\<lambda>u. handle_callback (h_delegate h)
                                  (call_on_queue_message (h_delegate h)) [(''msg'', msg)])
      in (callback, pending @ [callback]))"

text \<open>
  \<^verbatim>\<open>__init__\<close>. \<open>arg_delegate_class\<close> is what calling the given class gives (an instance, or
  the exception its constructor raises).
\<close>

record init_args =
  arg_host :: str
  arg_username :: str
  arg_password :: str
  arg_delegate_class :: "(exn + delegate) option"
  arg_delegate :: "delegate option"
  arg_virtual_host :: str
  arg_heartbeat :: int
  arg_prefetch_count :: int
  arg_max_message_length :: int
  arg_loop :: "nat option"
  arg_seconds_between_conn_retry :: int
  arg_logger :: "string option"

definition get_event_loop :: nat where
  "get_event_loop = 0"

text \<open>
  Modelled from the spec: the class \<^verbatim>\<open>AMQPConnection\<close> (module \<^verbatim>\<open>easyqueue.connection\<close>)
  is not among the sources. A connection that has never connected reports not-connected
  and has no channel.
\<close>

definition new_connection :: connection where
  "new_connection = \<lparr>is_connected = False, channel = None\<rparr>"

definition AsyncJsonQueue_init :: "init_args \<Rightarrow> exn + queue" where
  "AsyncJsonQueue_init a =
     (if arg_delegate a \<noteq> None \<and> arg_delegate_class a \<noteq> None then
        Inl (Exn ValueError ''Cant provide both delegate and delegate_class'')
      else
        (case (case arg_delegate_class a of
                 Some made \<Rightarrow> (case made of Inl e \<Rightarrow> Inl e | Inr d \<Rightarrow> Inr (Some d))
               | None \<Rightarrow> Inr (arg_delegate a)) of
           Inl e \<Rightarrow> Inl e
         | Inr d \<Rightarrow>
             if arg_max_message_length a < 0 then
               Inl (Exn ValueError ''max_message_length must be a positive integer'')
             else
               Inr \<lparr>host = arg_host a, username = arg_username a, password = arg_password a,
                    virtual_host = arg_virtual_host a, heartbeat = arg_heartbeat a,
                    loop = (case arg_loop a of Some l \<Rightarrow> l | None \<Rightarrow> get_event_loop),
                    delegate = d, prefetch_count = arg_prefetch_count a,
                    max_message_length = arg_max_message_length a,
                    connection = new_connection,
                    seconds_between_conn_retry = arg_seconds_between_conn_retry a,
                    is_running = True, logger = arg_logger a\<rparr>))"

text \<open>A call of a channel method: the broker's answer, and the event.\<close>

definition call :: "world \<Rightarrow> channel \<Rightarrow> request \<Rightarrow> (exn + py) \<times> event list" where
  "call w ch req = (channel_call w ch req, [Call ch req])"

text \<open>
  An attribute of \<^verbatim>\<open>self.connection.channel\<close> is looked up on \<^verbatim>\<open>None\<close> while there is
  no channel, which raises \<^verbatim>\<open>AttributeError\<close>.
\<close>

definition on_channel ::
  "queue \<Rightarrow> (channel \<Rightarrow> (exn + 'r) \<times> event list) \<Rightarrow> (exn + 'r) \<times> event list"
where
  "on_channel q f =
     (case channel (connection q) of
        None \<Rightarrow> (Inl (Exn AttributeError ''NoneType object has no attribute''), [])
      | Some ch \<Rightarrow> f ch)"

definition and_then ::
  "(exn + 'a) \<times> event list \<Rightarrow> ('a \<Rightarrow> (exn + 'b) \<times> event list) \<Rightarrow> (exn + 'b) \<times> event list"
where
  "and_then m f =
     (case m of
        (Inl e, evs) \<Rightarrow> (Inl e, evs)
      | (Inr x, evs) \<Rightarrow> (case f x of (r, evs') \<Rightarrow> (r, evs @ evs')))"

text \<open>The bodies of the four decorated coroutines, and the coroutines themselves.\<close>

definition ack_body :: "world \<Rightarrow> queue \<Rightarrow> message \<Rightarrow> (exn + py) \<times> event list" where
  "ack_body w q msg = call w (msg_channel msg) (BasicClientAck (msg_delivery_tag msg))"

definition reject_body :: "world \<Rightarrow> queue \<Rightarrow> message \<times> bool \<Rightarrow> (exn + py) \<times> event list" where
  "reject_body w q args =
     (case args of (msg, requeue) \<Rightarrow>
        call w (msg_channel msg) (BasicReject (msg_delivery_tag msg) requeue))"

definition put_body ::
  "world \<Rightarrow> queue \<Rightarrow> str \<times> py \<times> str_or_bytes \<times> str \<Rightarrow> (exn + py) \<times> event list"
where
  "put_body w q args =
     (case args of (routing_key, data, serialized_data, exchange) \<Rightarrow>
        if truthy data \<and> text_truthy serialized_data then
          (Inl (Exn ValueError ''Only one of data or json should be specified''), [])
        else
          and_then
            (if truthy data
             then (case serialize w data False of Inl e \<Rightarrow> Inl e | Inr s \<Rightarrow> Inr (Str s), [])
             else (Inr serialized_data, []))
            (\<lambda>sd. and_then
               (case sd of Bytes b \<Rightarrow> (Inr b, []) | Str s \<Rightarrow> (encode s, []))
               (\<lambda>payload. on_channel q
                  (\<lambda>ch. call w ch (Publish payload exchange routing_key)))))"

fun subscript_consumer_tag :: "py \<Rightarrow> exn + py" where
  "subscript_consumer_tag (PDict kvs) =
     (case map_of kvs (PStr (ascii ''consumer_tag'')) of
        None \<Rightarrow> Inl (Exn KeyError ''consumer_tag'')
      | Some v \<Rightarrow> Inr v)"
| "subscript_consumer_tag v = Inl (Exn TypeError (class_name v @ '' is not subscriptable''))"

definition hook :: "exn + unit \<Rightarrow> event \<Rightarrow> (exn + unit) \<times> event list" where
  "hook outcome ev = (outcome, [ev])"

definition consume_body ::
  "world \<Rightarrow> queue \<Rightarrow> str \<times> delegate \<times> str \<Rightarrow> (exn + py) \<times> event list"
where
  "consume_body w q args =
     (case args of (queue_name, d, consumer_name) \<Rightarrow>
        and_then (hook (on_before_start_consumption d queue_name)
                    (OnBeforeStartConsumption queue_name))
          (\<lambda>u. and_then
             (on_channel q (\<lambda>ch. call w ch (BasicQos (prefetch_count q) 0 False)))
             (\<lambda>u. and_then
                (on_channel q (\<lambda>ch. call w ch (BasicConsume consumer_name queue_name)))
                (\<lambda>tag. and_then (subscript_consumer_tag tag, [])
                   (\<lambda>consumer_tag. and_then
                      (hook (on_consumption_start d consumer_tag)
                         (OnConsumptionStart consumer_tag))
                      (\<lambda>u. (Inr consumer_tag, [])))))))"

definition ack where
  "ack w = ensure_connected (ack_body w) w"

definition reject where
  "reject w = ensure_connected (reject_body w) w"

definition put where
  "put w = ensure_connected (put_body w) w"

definition consume where
  "consume w = ensure_connected (consume_body w) w"

text \<open>\<^verbatim>\<open>stop_consumer\<close> carries no decorator.\<close>

definition stop_consumer :: "world \<Rightarrow> queue \<Rightarrow> py \<Rightarrow> (exn + py) \<times> event list" where
  "stop_consumer w q consumer_tag =
     (if channel (connection q) = None then
        (Inl (Exn ConnectionError
           ''Queue isn't connected. Did you forgot to wait for `connect()`?''), [])
      else on_channel q (\<lambda>ch. call w ch (BasicCancel consumer_tag)))"

section \<open>Runs of the guard in closed form\<close>

text \<open>
  The definitions of this section describe runs of the guard's loop in closed form, so
  that the theorems can say what a run looks like; the lemmas of the next section prove
  that \<open>connect_loop\<close>, the loop of the source, runs exactly so. A round of the
  loop fails when the loop condition holds and \<^verbatim>\<open>_connect()\<close> raises an exception that
  \<^verbatim>\<open>except Exception\<close> catches. \<open>sleeps w t q k\<close> is the client after \<open>k\<close> failed rounds
  that started at time \<open>t\<close> in state \<open>q\<close>, \<open>retry_events\<close> what those rounds did, and
  \<open>leave\<close> how the loop ends in a round that does not fail.
\<close>

definition attempt_fails :: "world \<Rightarrow> nat \<Rightarrow> queue \<Rightarrow> bool" where
  "attempt_fails w t q =
     (is_running q \<and> \<not> is_connected (connection q) \<and>
      (case connect_result w t (connection q) of Inl e \<Rightarrow> is_Exception e | Inr c \<Rightarrow> False))"

fun sleeps :: "world \<Rightarrow> nat \<Rightarrow> queue \<Rightarrow> nat \<Rightarrow> queue" where
  "sleeps w t q 0 = q"
| "sleeps w t q (Suc k) = sleeps w (Suc t) (asleep w t q) k"

definition failure_report :: "world \<Rightarrow> nat \<Rightarrow> exn \<Rightarrow> report" where
  "failure_report w n e =
     \<lparr>event = ''reconnect-failure'', retry_count = n, exc_traceback = format_tb w e\<rparr>"

definition round_events :: "world \<Rightarrow> nat \<Rightarrow> queue \<Rightarrow> nat \<Rightarrow> event list" where
  "round_events w t q r =
     (case connect_result w t (connection q) of
        Inr c \<Rightarrow> []
      | Inl e \<Rightarrow>
          [Connect (Some e), Sleep (seconds_between_conn_retry q)]
          @ (if logger q \<noteq> None then [LoggerError (failure_report w (Suc r) e)] else []))"

fun retry_events :: "world \<Rightarrow> nat \<Rightarrow> queue \<Rightarrow> nat \<Rightarrow> nat \<Rightarrow> event list" where
  "retry_events w t q r 0 = []"
| "retry_events w t q r (Suc k) =
     round_events w t q r @ retry_events w (Suc t) (asleep w t q) (Suc r) k"

definition leave :: "world \<Rightarrow> nat \<Rightarrow> queue \<Rightarrow> exn option \<times> queue \<times> nat \<times> event list" where
  "leave w t q =
     (if is_running q \<and> \<not> is_connected (connection q) then
        (case connect_result w t (connection q) of
           Inr c \<Rightarrow> (None, q\<lparr>connection := c\<rparr>, Suc t, [Connect None])
         | Inl e \<Rightarrow> (Some e, q, Suc t, [Connect (Some e)]))
      else (None, q, t, []))"

definition add_events ::
  "event list \<Rightarrow> exn option \<times> queue \<times> nat \<times> event list
     \<Rightarrow> exn option \<times> queue \<times> nat \<times> event list"
where
  "add_events tr out = (case out of (res, q, t, evs) \<Rightarrow> (res, q, t, tr @ evs))"

text \<open>Projections of a list of events.\<close>

fun is_guard_event :: "event \<Rightarrow> bool" where
  "is_guard_event (Connect x) = True"
| "is_guard_event (Sleep d) = True"
| "is_guard_event (LoggerError rep) = True"
| "is_guard_event ev = False"

fun is_connect :: "event \<Rightarrow> bool" where
  "is_connect (Connect x) = True"
| "is_connect ev = False"

fun sleep_args :: "event list \<Rightarrow> int list" where
  "sleep_args [] = []"
| "sleep_args (Sleep d # evs) = d # sleep_args evs"
| "sleep_args (ev # evs) = sleep_args evs"

fun reports :: "event list \<Rightarrow> report list" where
  "reports [] = []"
| "reports (LoggerError rep # evs) = rep # reports evs"
| "reports (ev # evs) = reports evs"

text \<open>One failed round as the source orders it: the attempt, the sleep, the report.\<close>

definition failed_round :: "world \<Rightarrow> queue \<Rightarrow> nat \<times> exn \<Rightarrow> event list" where
  "failed_round w q ne =
     (case ne of (n, e) \<Rightarrow>
        [Connect (Some e), Sleep (seconds_between_conn_retry q),
         LoggerError (failure_report w n e)])"

text \<open>The exceptions that \<^verbatim>\<open>_connect()\<close> raises in the first \<open>k\<close> rounds, in their order.\<close>

fun causes :: "world \<Rightarrow> nat \<Rightarrow> queue \<Rightarrow> nat \<Rightarrow> exn list" where
  "causes w t q 0 = []"
| "causes w t q (Suc k) =
     (case connect_result w t (connection q) of Inl e \<Rightarrow> [e] | Inr c \<Rightarrow> [])
     @ causes w (Suc t) (asleep w t q) k"

section \<open>Sample clients and worlds\<close>

text \<open>
  A client with a logger that has not connected yet, the same client after its connection
  was lost and it was told to stop, and three worlds: a broker that
  accepts the first connection, one that refuses twice and then accepts, and one that
  refuses always while another task clears \<^verbatim>\<open>is_running\<close> during the guard's second
  sleep.
\<close>

definition client :: queue where
  "client =
     \<lparr>host = ascii ''localhost'', username = ascii ''guest'', password = ascii ''guest'',
      virtual_host = ascii ''/'', heartbeat = 60, loop = 0, delegate = None,
      prefetch_count = 100, max_message_length = 0, connection = new_connection,
      seconds_between_conn_retry = 1, is_running = True, logger = Some ''easyqueue''\<rparr>"

definition connected :: connection where
  "connected = \<lparr>is_connected = True, channel = Some 1\<rparr>"

definition refused :: exn where
  "refused = Exn ConnectionError ''connection refused''"

text \<open>
  A sample interpreter with the usual digit limit. Its \<open>float_repr\<close> leaves a text as it
  is, which is what \<^verbatim>\<open>repr(float(s))\<close> does on a text \<open>s\<close> that is the \<^verbatim>\<open>repr\<close> of a
  float; the samples use no other.
\<close>

definition sample_interpreter :: interpreter where
  "sample_interpreter =
     \<lparr>float_repr = (\<lambda>s. s), max_str_digits = 4300, encoder_depth = 900,
      decoder_depth = 900\<rparr>"

definition world_up :: world where
  "world_up =
     \<lparr>connect_result = (\<lambda>t c. Inr connected), asleep_running = (\<lambda>t b. b),
      asleep_connection = (\<lambda>t c. c), format_tb = (\<lambda>e. [''Traceback'']),
      channel_call = (\<lambda>ch req. Inr PNone), interpreter = sample_interpreter\<rparr>"

definition world_flaky :: world where
  "world_flaky =
     world_up\<lparr>connect_result := (\<lambda>t c. if t < 2 then Inl refused else Inr connected)\<rparr>"

definition stale :: queue where
  "stale = client\<lparr>is_running := False,
                  connection := \<lparr>is_connected = False, channel = Some 1\<rparr>\<rparr>"

definition world_stopping :: world where
  "world_stopping =
     world_up\<lparr>connect_result := (\<lambda>t c. Inl refused),
              asleep_running := (\<lambda>t b. if t = 1 then False else b)\<rparr>"

text \<open>
  The default arguments of \<^verbatim>\<open>__init__\<close>, for a broker on this host. Two delegates whose
  message handler always raises: one a \<^verbatim>\<open>ZeroDivisionError\<close>-like \<^verbatim>\<open>Exception\<close>, the
  other \<^verbatim>\<open>SystemExit\<close> (as \<^verbatim>\<open>sys.exit()\<close> does). A handler for each, and a delivery.
\<close>

definition default_args :: init_args where
  "default_args =
     \<lparr>arg_host = ascii ''localhost'', arg_username = ascii ''guest'',
      arg_password = ascii ''guest'', arg_delegate_class = None, arg_delegate = None,
      arg_virtual_host = ascii ''/'', arg_heartbeat = 60, arg_prefetch_count = 100,
      arg_max_message_length = 0, arg_loop = None, arg_seconds_between_conn_retry = 1,
      arg_logger = None\<rparr>"

definition failing_delegate :: delegate where
  "failing_delegate =
     \<lparr>on_before_start_consumption = (\<lambda>queue_name. Inr ()),
      on_consumption_start = (\<lambda>tag. Inr ()),
      on_queue_message = (\<lambda>kw. Inl (Exn OtherException ''division by zero'')),
      on_message_handle_error = (\<lambda>e kw. Inr PNone),
      on_connection_error = (\<lambda>e. Inr ())\<rparr>"

definition exiting_delegate :: delegate where
  "exiting_delegate =
     failing_delegate\<lparr>on_queue_message := (\<lambda>kw. Inl (Exn SystemExit ''0''))\<rparr>"

definition delivery :: envelope where
  "delivery =
     \<lparr>env_consumer_tag = ascii ''ctag'', delivery_tag = 7, env_exchange_name = [],
      env_routing_key = ascii ''orders'', is_redeliver = False\<rparr>"

text \<open>How a result of a guarded call looks with another \<^verbatim>\<open>max_message_length\<close>.\<close>

definition with_limit ::
  "int \<Rightarrow> ('r \<times> queue \<times> nat \<times> event list) option \<Rightarrow> ('r \<times> queue \<times> nat \<times> event list) option"
where
  "with_limit m out =
     (case out of
        None \<Rightarrow> None
      | Some (r, q, t, tr) \<Rightarrow> Some (r, q\<lparr>max_message_length := m\<rparr>, t, tr))"

section \<open>The round trip through the codec\<close>

text \<open>
  \<^verbatim>\<open>serialize\<close> gives a \<^verbatim>\<open>str\<close> and \<^verbatim>\<open>deserialize\<close> takes \<^verbatim>\<open>bytes\<close>; between the two
  stands the \<^verbatim>\<open>.encode()\<close> that \<^verbatim>\<open>put\<close> applies to what it serialized. This is
  \<^verbatim>\<open>deserialize(serialize(p).encode())\<close>, with the codec's defaults.
\<close>

definition round_trip :: "world \<Rightarrow> py \<Rightarrow> exn + py" where
  "round_trip w p =
     (case serialize w p True of
        Inl e \<Rightarrow> Inl e
      | Inr s \<Rightarrow> (case encode s of Inl e \<Rightarrow> Inl e | Inr b \<Rightarrow> deserialize w b))"

text \<open>
  The payloads that come back as they went. A string may hold any code points, but no
  high surrogate directly before a low surrogate (the decoder reads the two escapes as
  one code point). An integer must be within the interpreter's digit limit. A float must
  not be NaN (which is not equal to itself); \<open>PFloat r\<close> stands for a float when \<open>r\<close> is
  \<^verbatim>\<open>inf\<close> or \<^verbatim>\<open>-inf\<close>, or the text of a number with a fraction or an exponent that
  \<^verbatim>\<open>repr(float(r))\<close> gives back, as it does when \<open>r\<close> is the \<^verbatim>\<open>repr\<close> of a float. Lists
  and dictionaries with distinct strings as keys hold such payloads, no deeper inside
  each other than the interpreter lets the encoder and the decoder go.
\<close>

definition high_surrogate :: "nat \<Rightarrow> bool" where
  "high_surrogate c = (0xD800 \<le> c \<and> c < 0xDC00)"

definition low_surrogate :: "nat \<Rightarrow> bool" where
  "low_surrogate c = (0xDC00 \<le> c \<and> c < 0xE000)"

fun no_pair :: "str \<Rightarrow> bool" where
  "no_pair (c # c' # s) = (\<not> (high_surrogate c \<and> low_surrogate c') \<and> no_pair (c' # s))"
| "no_pair s = True"

definition json_str :: "str \<Rightarrow> bool" where
  "json_str s = (list_all (\<lambda>c. c < 0x110000) s \<and> no_pair s)"

definition float_literal :: "str \<Rightarrow> bool" where
  "float_literal r =
     (case parse_int (unsigned r) of
        None \<Rightarrow> False
      | Some (n, r1) \<Rightarrow> (is_frac r1 \<or> is_exp r1) \<and> skip_exp (skip_frac r1) = [])"

definition json_float :: "interpreter \<Rightarrow> str \<Rightarrow> bool" where
  "json_float I r =
     (r = ascii ''inf'' \<or> r = ascii ''-inf'' \<or> (float_literal r \<and> float_repr I r = r))"

fun str_key :: "py \<Rightarrow> bool" where
  "str_key (PStr s) = json_str s"
| "str_key k = False"

fun native :: "interpreter \<Rightarrow> py \<Rightarrow> bool" where
  "native I PNone = True"
| "native I (PBool b) = True"
| "native I (PInt i) = (\<not> too_long I (length (dec (nat \<bar>i\<bar>))))"
| "native I (PFloat r) = json_float I r"
| "native I (PStr s) = json_str s"
| "native I (PList xs) = (\<forall>x\<in>set xs. native I x)"
| "native I (PTuple xs) = False"
| "native I (PDict kvs) =
     (distinct (map fst kvs) \<and> (\<forall>kv\<in>set kvs. str_key (fst kv) \<and> native I (snd kv)))"
| "native I (PObject c) = False"

fun depth :: "py \<Rightarrow> nat"
  and max_depth :: "py list \<Rightarrow> nat"
  and max_depth_items :: "(py \<times> py) list \<Rightarrow> nat"
where
  "depth (PList xs) = Suc (max_depth xs)"
| "depth (PTuple xs) = Suc (max_depth xs)"
| "depth (PDict kvs) = Suc (max_depth_items kvs)"
| "depth p = 0"
| "max_depth [] = 0"
| "max_depth (x # xs) = max (depth x) (max_depth xs)"
| "max_depth_items [] = 0"
| "max_depth_items ((k, v) # kvs) = max (depth v) (max_depth_items kvs)"


text \<open>What may follow a value inside a JSON text: nothing, a comma or a closing bracket.\<close>

fun delimited :: "str \<Rightarrow> bool" where
  "delimited [] = True"
| "delimited (c # r) = (c = 44 \<or> c = 93 \<or> c = 125)"

text \<open>
  How the text of a value starts (a quote, a minus sign, a digit, a bracket, a brace or
  the first letter of \<^verbatim>\<open>null\<close>, \<^verbatim>\<open>true\<close>, \<^verbatim>\<open>false\<close>, \<^verbatim>\<open>Infinity\<close>), and what it means
  that the encoder writes the value \<open>p\<close> as the text \<open>t\<close> and the decoder reads \<open>p\<close> back
  from \<open>t\<close>, whatever delimiter follows.
\<close>

fun starts_value :: "str \<Rightarrow> bool" where
  "starts_value [] = False"
| "starts_value (c # r) =
     (c = 34 \<or> c = 45 \<or> digit c \<or> c = 91 \<or> c = 123 \<or> c = 110 \<or> c = 116 \<or> c = 102
      \<or> c = 73)"

definition parses_back :: "interpreter \<Rightarrow> py \<Rightarrow> str \<Rightarrow> bool" where
  "parses_back I p t =
     (starts_value t \<and> list_all (\<lambda>c. c < 128) t \<and>
      (\<forall>d. depth p \<le> d \<longrightarrow> json_dumps I d True p = Inr t) \<and>
      (\<forall>f d r. length t \<le> f \<longrightarrow> depth p \<le> d \<longrightarrow> delimited r \<longrightarrow>
         parse_value I f d (t @ r) = Inr (p, r)))"

section \<open>Lemmas about the guard's loop\<close>

text \<open>A round that does not fail ends the loop; a round that fails starts the next one.\<close>

lemma connect_loop_leave:
  assumes "\<not> attempt_fails w t q"
  shows "connect_loop w q t r tr = Some (add_events tr (leave w t q))"
  using assms
  by (subst connect_loop.simps)
     (auto simp: attempt_fails_def leave_def add_events_def split: sum.splits)

lemma connect_loop_retry:
  assumes "attempt_fails w t q"
  shows "connect_loop w q t r tr =
           connect_loop w (asleep w t q) (Suc t) (Suc r) (tr @ round_events w t q r)"
  using assms
  by (subst connect_loop.simps)
     (auto simp: attempt_fails_def round_events_def failure_report_def split: sum.splits)

lemma connect_loop_rounds:
  assumes "\<forall>i<k. attempt_fails w (t + i) (sleeps w t q i)"
    and "\<not> attempt_fails w (t + k) (sleeps w t q k)"
  shows "connect_loop w q t r tr =
           Some (add_events (tr @ retry_events w t q r k) (leave w (t + k) (sleeps w t q k)))"
  using assms
proof (induction k arbitrary: t q r tr)
  case 0
  then show ?case by (simp add: connect_loop_leave)
next
  case (Suc k)
  from Suc.prems(1) have first: "attempt_fails w t q"
    by (metis add.right_neutral sleeps.simps(1) zero_less_Suc)
  have rest: "\<forall>i<k. attempt_fails w (Suc t + i) (sleeps w (Suc t) (asleep w t q) i)"
    using Suc.prems(1) by (metis Suc_less_eq add_Suc_shift sleeps.simps(2))
  have last: "\<not> attempt_fails w (Suc t + k) (sleeps w (Suc t) (asleep w t q) k)"
    using Suc.prems(2) by simp
  show ?case
    using Suc.IH [OF rest last, of "Suc r" "tr @ round_events w t q r"]
    by (simp add: connect_loop_retry [OF first])
qed

lemma connect_loop_returns:
  "connect_loop w q t r tr = Some out \<Longrightarrow>
     \<exists>k. (\<forall>i<k. attempt_fails w (t + i) (sleeps w t q i))
         \<and> \<not> attempt_fails w (t + k) (sleeps w t q k)"
proof (induction arbitrary: out rule: connect_loop.raw_induct [rotated 1, consumes 1])
  case (1 loop w q t r tr out)
  show ?case
  proof (cases "attempt_fails w t q")
    case False
    then have "(\<forall>i<0. attempt_fails w (t + i) (sleeps w t q i))
         \<and> \<not> attempt_fails w (t + 0) (sleeps w t q 0)" by simp
    then show ?thesis by blast
  next
    case True
    then obtain e where e: "connect_result w t (connection q) = Inl e" "is_Exception e"
      "is_running q" "\<not> is_connected (connection q)"
      by (auto simp: attempt_fails_def split: sum.splits)
    with 1(2) obtain tr' where "loop w (asleep w t q) (Suc t) (Suc r) tr' = Some out"
      by auto
    from 1(1) [OF this] obtain k where
      k: "\<forall>i<k. attempt_fails w (Suc t + i) (sleeps w (Suc t) (asleep w t q) i)"
         "\<not> attempt_fails w (Suc t + k) (sleeps w (Suc t) (asleep w t q) k)"
      by blast
    have "\<forall>i<Suc k. attempt_fails w (t + i) (sleeps w t q i)"
    proof (intro allI impI)
      fix i assume "i < Suc k"
      then show "attempt_fails w (t + i) (sleeps w t q i)"
        using True k(1) by (cases i) auto
    qed
    moreover have "\<not> attempt_fails w (t + Suc k) (sleeps w t q (Suc k))"
      using k(2) by simp
    ultimately show ?thesis by blast
  qed
qed

lemma connect_loop_diverges:
  assumes "\<forall>i. attempt_fails w (t + i) (sleeps w t q i)"
  shows "connect_loop w q t r tr = None"
proof (cases "connect_loop w q t r tr")
  case None then show ?thesis .
next
  case (Some out)
  from connect_loop_returns [OF this] assms show ?thesis by blast
qed

text \<open>Sleeping changes neither the logger nor the retry interval.\<close>

lemma asleep_fields [simp]:
  "logger (asleep w t q) = logger q"
  "seconds_between_conn_retry (asleep w t q) = seconds_between_conn_retry q"
  "max_message_length (asleep w t q) = max_message_length q"
  "prefetch_count (asleep w t q) = prefetch_count q"
  by (simp_all add: asleep_def)

lemma sleeps_fields [simp]:
  "logger (sleeps w t q k) = logger q"
  "seconds_between_conn_retry (sleeps w t q k) = seconds_between_conn_retry q"
  by (induction k arbitrary: t q) simp_all

lemma sleep_args_append [simp]: "sleep_args (xs @ ys) = sleep_args xs @ sleep_args ys"
  by (induction xs rule: sleep_args.induct) simp_all

lemma retry_events_sleeps:
  assumes "\<forall>i<k. attempt_fails w (t + i) (sleeps w t q i)"
  shows "sleep_args (retry_events w t q r k) = replicate k (seconds_between_conn_retry q)"
  using assms
proof (induction k arbitrary: t q r)
  case 0
  then show ?case by simp
next
  case (Suc k)
  from Suc.prems have first: "attempt_fails w t q"
    by (metis add.right_neutral sleeps.simps(1) zero_less_Suc)
  have rest: "\<forall>i<k. attempt_fails w (Suc t + i) (sleeps w (Suc t) (asleep w t q) i)"
    using Suc.prems by (metis Suc_less_eq add_Suc_shift sleeps.simps(2))
  from first have "sleep_args (round_events w t q r) = [seconds_between_conn_retry q]"
    by (auto simp: attempt_fails_def round_events_def split: sum.splits)
  with Suc.IH [OF rest, of "Suc r"] show ?case by simp
qed

lemma retry_events_shape:
  assumes "\<forall>i<k. attempt_fails w (t + i) (sleeps w t q i)" and "logger q \<noteq> None"
  shows "\<exists>es. length es = k \<and> (\<forall>e\<in>set es. is_Exception e) \<and>
           retry_events w t q r k =
             concat (map (failed_round w q) (zip [Suc r..<Suc r + k] es))"
  using assms
proof (induction k arbitrary: t q r)
  case 0
  then show ?case by simp
next
  case (Suc k)
  from Suc.prems(1) have first: "attempt_fails w t q"
    by (metis add.right_neutral sleeps.simps(1) zero_less_Suc)
  have rest: "\<forall>i<k. attempt_fails w (Suc t + i) (sleeps w (Suc t) (asleep w t q) i)"
    using Suc.prems(1) by (metis Suc_less_eq add_Suc_shift sleeps.simps(2))
  from first obtain e where e: "connect_result w t (connection q) = Inl e" "is_Exception e"
    by (auto simp: attempt_fails_def split: sum.splits)
  have fr: "failed_round w (asleep w t q) = failed_round w q"
    by (rule ext) (simp add: failed_round_def split: prod.splits)
  from Suc.IH [OF rest, of "Suc r"] Suc.prems(2) obtain es where
    es: "length es = k" "\<forall>e\<in>set es. is_Exception e"
        "retry_events w (Suc t) (asleep w t q) (Suc r) k =
           concat (map (failed_round w q) (zip [Suc (Suc r)..<Suc (Suc r) + k] es))"
    by (auto simp: fr)
  have up: "[Suc r..<Suc r + Suc k] = Suc r # [Suc (Suc r)..<Suc (Suc r) + k]"
    by (simp add: upt_conv_Cons)
  have "retry_events w t q r (Suc k) =
          concat (map (failed_round w q) (zip [Suc r..<Suc r + Suc k] (e # es)))"
    unfolding up using e es(3) Suc.prems(2)
    by (simp add: round_events_def failed_round_def)
  with es(1,2) e(2) show ?case
    by (intro exI [of _ "e # es"]) simp
qed

lemma retry_events_connects:
  assumes "\<forall>i<k. attempt_fails w (t + i) (sleeps w t q i)"
  shows "length (filter is_connect (retry_events w t q r k)) = k"
  using assms
proof (induction k arbitrary: t q r)
  case 0
  then show ?case by simp
next
  case (Suc k)
  from Suc.prems have first: "attempt_fails w t q"
    by (metis add.right_neutral sleeps.simps(1) zero_less_Suc)
  have rest: "\<forall>i<k. attempt_fails w (Suc t + i) (sleeps w (Suc t) (asleep w t q) i)"
    using Suc.prems by (metis Suc_less_eq add_Suc_shift sleeps.simps(2))
  from first have "length (filter is_connect (round_events w t q r)) = 1"
    by (auto simp: attempt_fails_def round_events_def split: sum.splits)
  with Suc.IH [OF rest, of "Suc r"] show ?case by simp
qed

lemma ensure_connected_rounds:
  assumes "\<forall>i<k. attempt_fails w (t + i) (sleeps w t q i)"
    and "\<not> attempt_fails w (t + k) (sleeps w t q k)"
  shows "ensure_connected coro w t q args =
           (case leave w (t + k) (sleeps w t q k) of
              (Some e, q', t', evs) \<Rightarrow> Some (Inl e, q', t', retry_events w t q 0 k @ evs)
            | (None, q', t', evs) \<Rightarrow>
                Some (fst (coro q' args), q', t',
                      retry_events w t q 0 k @ evs @ snd (coro q' args)))"
  by (simp add: ensure_connected_def connect_loop_rounds [OF assms] add_events_def
           split: prod.splits option.splits)

text \<open>Unfolding the sample clients and worlds.\<close>

lemmas samples =
  client_def new_connection_def connected_def refused_def world_up_def world_flaky_def
  world_stopping_def asleep_def attempt_fails_def

section \<open>The guard retries until connected\<close>

text \<open>
  Claim C2. A guarded operation is called at time \<open>t\<close> on the client \<open>q\<close>. Suppose the
  first \<open>k\<close> rounds of the guard's loop fail (each time the client is meant to run, the
  connection reports not-connected and \<^verbatim>\<open>_connect()\<close> raises), and that the client \<open>s\<close>
  after these rounds is still meant to run. Then the guard has called \<^verbatim>\<open>_connect()\<close>
  \<open>k\<close> times and has slept \<open>k\<close> times, each time for the configured
  \<^verbatim>\<open>seconds_between_conn_retry\<close>. If by then the connection reports connected, the
  wrapped operation is invoked at once; if it does not and the next \<^verbatim>\<open>_connect()\<close>
  returns, the wrapped operation is invoked after that call. In both cases it is invoked
  with the original arguments and the call returns what the operation returns, a value
  or the exception it raised.
\<close>

theorem guard_retries_until_connected:
  assumes "\<forall>i<k. attempt_fails w (t + i) (sleeps w t q i)"
    and "s = sleeps w t q k"
    and "is_running s"
  shows "length (filter is_connect (retry_events w t q 0 k)) = k
       \<and> sleep_args (retry_events w t q 0 k) = replicate k (seconds_between_conn_retry q)
       \<and> (is_connected (connection s) \<longrightarrow>
            ensure_connected coro w t q args =
              Some (fst (coro s args), s, t + k,
                    retry_events w t q 0 k @ snd (coro s args)))
       \<and> (\<forall>c. \<not> is_connected (connection s)
                \<and> connect_result w (t + k) (connection s) = Inr c \<longrightarrow>
            ensure_connected coro w t q args =
              Some (fst (coro (s\<lparr>connection := c\<rparr>) args), s\<lparr>connection := c\<rparr>, Suc (t + k),
                    retry_events w t q 0 k @ Connect None # snd (coro (s\<lparr>connection := c\<rparr>) args)))"
proof (intro conjI impI allI)
  show "length (filter is_connect (retry_events w t q 0 k)) = k"
    by (rule retry_events_connects [OF assms(1)])
  show "sleep_args (retry_events w t q 0 k) = replicate k (seconds_between_conn_retry q)"
    by (rule retry_events_sleeps [OF assms(1)])
next
  assume c: "is_connected (connection s)"
  then have nf: "\<not> attempt_fails w (t + k) (sleeps w t q k)"
    using assms(2) by (simp add: attempt_fails_def)
  show "ensure_connected coro w t q args =
          Some (fst (coro s args), s, t + k, retry_events w t q 0 k @ snd (coro s args))"
    using c assms(2) by (simp add: ensure_connected_rounds [OF assms(1) nf] leave_def)
next
  fix c
  assume c: "\<not> is_connected (connection s) \<and> connect_result w (t + k) (connection s) = Inr c"
  then have nf: "\<not> attempt_fails w (t + k) (sleeps w t q k)"
    using assms(2) by (simp add: attempt_fails_def)
  show "ensure_connected coro w t q args =
          Some (fst (coro (s\<lparr>connection := c\<rparr>) args), s\<lparr>connection := c\<rparr>, Suc (t + k),
                retry_events w t q 0 k @ Connect None # snd (coro (s\<lparr>connection := c\<rparr>) args))"
    using c assms(2,3) by (simp add: ensure_connected_rounds [OF assms(1) nf] leave_def)
qed

text \<open>
  The broker refuses twice and then accepts: \<^verbatim>\<open>put\<close> tries three times, sleeps and
  reports twice, and publishes.
\<close>

lemma flaky_rounds: "\<forall>i<2. attempt_fails world_flaky (0 + i) (sleeps world_flaky 0 client i)"
  by (simp add: less_2_cases_iff samples)

lemma flaky_state: "sleeps world_flaky 0 client 2 = client"
  by (simp add: numeral_2_eq_2 samples)

lemma flaky_events:
  "retry_events world_flaky 0 client 0 2 =
     [Connect (Some refused), Sleep 1, LoggerError (failure_report world_flaky 1 refused),
      Connect (Some refused), Sleep 1, LoggerError (failure_report world_flaky 2 refused)]"
  by (simp add: numeral_2_eq_2 round_events_def samples)

theorem guard_retries_until_connected_witness:
  "put world_flaky 0 client (ascii ''orders'', PNone, Bytes ''hi'', []) =
     Some (Inr PNone, client\<lparr>connection := connected\<rparr>, 3,
           [Connect (Some refused), Sleep 1,
            LoggerError (failure_report world_flaky 1 refused),
            Connect (Some refused), Sleep 1,
            LoggerError (failure_report world_flaky 2 refused),
            Connect None, Call 1 (Publish ''hi'' [] (ascii ''orders''))])"
proof -
  have run: "is_running (sleeps world_flaky 0 client 2)"
    by (simp add: flaky_state) (simp add: client_def)
  have dis: "\<not> is_connected (connection client)
      \<and> connect_result world_flaky (0 + 2) (connection client) = Inr connected"
    by (simp add: samples)
  have body: "put_body world_flaky (client\<lparr>connection := connected\<rparr>)
        (ascii ''orders'', PNone, Bytes ''hi'', []) =
        (Inr PNone, [Call 1 (Publish ''hi'' [] (ascii ''orders''))])"
    by (simp add: put_body_def and_then_def on_channel_def call_def samples)
  from guard_retries_until_connected
         [OF flaky_rounds flaky_state [symmetric] run [unfolded flaky_state],
          of "put_body world_flaky" "(ascii ''orders'', PNone, Bytes ''hi'', [])"]
       dis body
  show ?thesis
    by (simp add: put_def flaky_events)
qed

section \<open>The guard gives up when the client is stopped\<close>

lemma stopping_rounds:
  "\<forall>i<2. attempt_fails world_stopping (0 + i) (sleeps world_stopping 0 client i)"
  by (simp add: less_2_cases_iff samples)

lemma stopping_state: "sleeps world_stopping 0 client 2 = client\<lparr>is_running := False\<rparr>"
  by (simp add: numeral_2_eq_2 samples)

lemma stopping_events:
  "retry_events world_stopping 0 client 0 2 =
     [Connect (Some refused), Sleep 1, LoggerError (failure_report world_stopping 1 refused),
      Connect (Some refused), Sleep 1, LoggerError (failure_report world_stopping 2 refused)]"
  by (simp add: numeral_2_eq_2 round_events_def samples)

text \<open>
  Claim C3. Suppose the first \<open>k\<close> rounds of the guard's loop fail and that in the client
  \<open>s\<close> after these rounds \<^verbatim>\<open>is_running\<close> is cleared (with \<open>k = 0\<close>: it is cleared when
  the operation is called). Then the loop ends there, whether or not \<open>s\<close> is connected,
  and the wrapped operation is invoked on \<open>s\<close>.
\<close>

theorem guard_gives_up_when_stopped:
  assumes "\<forall>i<k. attempt_fails w (t + i) (sleeps w t q i)"
    and "s = sleeps w t q k"
    and "\<not> is_running s"
  shows "ensure_connected coro w t q args =
           Some (fst (coro s args), s, t + k, retry_events w t q 0 k @ snd (coro s args))"
proof -
  have nf: "\<not> attempt_fails w (t + k) (sleeps w t q k)"
    using assms(2,3) by (simp add: attempt_fails_def)
  show ?thesis
    using assms(2,3) by (simp add: ensure_connected_rounds [OF assms(1) nf] leave_def)
qed

text \<open>
  The broker refuses and the client is stopped during the second sleep: \<^verbatim>\<open>put\<close> runs
  its body on a client that never connected, and fails on the missing channel.
\<close>

theorem guard_gives_up_when_stopped_witness:
  "\<not> is_running (client\<lparr>is_running := False\<rparr>)
   \<and> \<not> is_connected (connection (client\<lparr>is_running := False\<rparr>))
   \<and> put world_stopping 0 client (ascii ''orders'', PNone, Bytes ''hi'', []) =
       Some (Inl (Exn AttributeError ''NoneType object has no attribute''),
             client\<lparr>is_running := False\<rparr>, 2,
             [Connect (Some refused), Sleep 1,
              LoggerError (failure_report world_stopping 1 refused),
              Connect (Some refused), Sleep 1,
              LoggerError (failure_report world_stopping 2 refused)])"
proof -
  have stopped: "\<not> is_running (client\<lparr>is_running := False\<rparr>)"
    by simp
  have body: "put_body world_stopping (client\<lparr>is_running := False\<rparr>)
        (ascii ''orders'', PNone, Bytes ''hi'', []) =
        (Inl (Exn AttributeError ''NoneType object has no attribute''), [])"
    by (simp add: put_body_def and_then_def on_channel_def call_def samples)
  from guard_gives_up_when_stopped
         [OF stopping_rounds stopping_state [symmetric] stopped,
          of "put_body world_stopping" "(ascii ''orders'', PNone, Bytes ''hi'', [])"]
       body
  show ?thesis
    by (simp add: put_def stopping_events) (simp add: samples)
qed

section \<open>When the wrapped operation runs disconnected\<close>

lemma leave_cases:
  assumes "\<not> attempt_fails w t q" and "leave w t q = (res, q', t', evs)"
  shows "(res = None \<and> q' = q \<and> t' = t \<and> evs = []
            \<and> (\<not> is_running q \<or> is_connected (connection q)))
       \<or> (\<exists>c. res = None \<and> connect_result w t (connection q) = Inr c
              \<and> q' = q\<lparr>connection := c\<rparr> \<and> t' = Suc t \<and> evs = [Connect None])
       \<or> (\<exists>e. res = Some e \<and> \<not> is_Exception e \<and> q' = q \<and> t' = Suc t
              \<and> evs = [Connect (Some e)])"
  using assms
  by (auto simp: attempt_fails_def leave_def split: if_splits sum.splits)

lemma connect_loop_result:
  assumes "connect_loop w q t r tr = Some (res, q', t', tr')"
  shows "\<exists>k evs. (\<forall>i<k. attempt_fails w (t + i) (sleeps w t q i))
           \<and> \<not> attempt_fails w (t + k) (sleeps w t q k)
           \<and> leave w (t + k) (sleeps w t q k) = (res, q', t', evs)
           \<and> tr' = tr @ retry_events w t q r k @ evs"
proof -
  from connect_loop_returns [OF assms] obtain k where
    k: "\<forall>i<k. attempt_fails w (t + i) (sleeps w t q i)"
       "\<not> attempt_fails w (t + k) (sleeps w t q k)"
    by blast
  obtain res0 q0 t0 evs where l: "leave w (t + k) (sleeps w t q k) = (res0, q0, t0, evs)"
    by (metis prod_cases4)
  from connect_loop_rounds [OF k, of r tr] assms l
  have "res0 = res" "q0 = q'" "t0 = t'" "tr' = tr @ retry_events w t q r k @ evs"
    by (simp_all add: add_events_def)
  with k l show ?thesis by blast
qed

text \<open>
  Claim C1 as stated fails: a client that was told to
  stop publishes while its connection reports not-connected.
\<close>

theorem publish_while_disconnected:
  "\<not> is_connected (connection stale)
   \<and> put world_up 0 stale (ascii ''orders'', PNone, Bytes ''hi'', []) =
       Some (Inr PNone, stale, 0, [Call 1 (Publish ''hi'' [] (ascii ''orders''))])"
proof -
  have nf: "\<not> attempt_fails world_up 0 stale"
    by (simp add: attempt_fails_def stale_def)
  have "connect_loop world_up stale 0 0 [] = Some (None, stale, 0, [])"
    by (simp add: connect_loop_leave [OF nf] add_events_def leave_def) (simp add: stale_def)
  moreover have "put_body world_up stale (ascii ''orders'', PNone, Bytes ''hi'', []) =
      (Inr PNone, [Call 1 (Publish ''hi'' [] (ascii ''orders''))])"
    by (simp add: put_body_def and_then_def on_channel_def call_def stale_def world_up_def)
  ultimately show ?thesis
    by (simp add: put_def ensure_connected_def) (simp add: stale_def)
qed

text \<open>
  Claim C1, amended: suppose the connection keeps its contract (when \<^verbatim>\<open>_connect()\<close>
  returns, the connection reports connected), a guarded call returns, and the client
  \<open>q'\<close> it leaves is still meant to run. Then either \<^verbatim>\<open>_connect()\<close> raised an exception
  that \<^verbatim>\<open>except Exception\<close> does not catch, which the call raises without running the
  operation body, or the body ran on \<open>q'\<close> and \<open>q'\<close> reports connected. The body runs
  disconnected only when \<^verbatim>\<open>is_running\<close> has been cleared.
\<close>

theorem guard_connected_while_running:
  assumes "\<forall>t c c'. connect_result w t c = Inr c' \<longrightarrow> is_connected c'"
    and "ensure_connected coro w t q args = Some (r, q', t', tr)"
    and "is_running q'"
  shows "(\<exists>e. connect_loop w q t 0 [] = Some (Some e, q', t', tr)
              \<and> \<not> is_Exception e \<and> r = Inl e)
       \<or> (\<exists>tr0. connect_loop w q t 0 [] = Some (None, q', t', tr0)
              \<and> is_connected (connection q')
              \<and> r = fst (coro q' args) \<and> tr = tr0 @ snd (coro q' args))"
proof -
  from assms(2) obtain res tr0 where
    loop: "connect_loop w q t 0 [] = Some (res, q', t', tr0)"
    by (auto simp: ensure_connected_def split: option.splits prod.splits)
  from connect_loop_result [OF loop] obtain k evs where
    k: "\<not> attempt_fails w (t + k) (sleeps w t q k)"
       "leave w (t + k) (sleeps w t q k) = (res, q', t', evs)"
    by blast
  show ?thesis
  proof (cases res)
    case (Some e)
    with leave_cases [OF k] have "\<not> is_Exception e" by auto
    with Some loop assms(2) show ?thesis
      by (auto simp: ensure_connected_def)
  next
    case None
    with leave_cases [OF k] assms(1,3) have "is_connected (connection q')"
      by auto
    with None loop assms(2) show ?thesis
      by (auto simp: ensure_connected_def split: prod.splits)
  qed
qed

lemma flaky_loop:
  "connect_loop world_flaky client 0 0 [] =
     Some (None, client\<lparr>connection := connected\<rparr>, 3,
           [Connect (Some refused), Sleep 1,
            LoggerError (failure_report world_flaky 1 refused),
            Connect (Some refused), Sleep 1,
            LoggerError (failure_report world_flaky 2 refused),
            Connect None])"
proof -
  have nf: "\<not> attempt_fails world_flaky (0 + 2) (sleeps world_flaky 0 client 2)"
    by (simp add: flaky_state) (simp add: samples)
  show ?thesis
    by (simp add: connect_loop_rounds [OF flaky_rounds nf] flaky_state flaky_events
          add_events_def leave_def)
       (simp add: samples)
qed

lemma flaky_put:
  "put world_flaky 0 client (ascii ''orders'', PNone, Bytes ''hi'', []) =
     Some (Inr PNone, client\<lparr>connection := connected\<rparr>, 3,
           [Connect (Some refused), Sleep 1,
            LoggerError (failure_report world_flaky 1 refused),
            Connect (Some refused), Sleep 1,
            LoggerError (failure_report world_flaky 2 refused),
            Connect None, Call 1 (Publish ''hi'' [] (ascii ''orders''))])"
proof -
  have "put_body world_flaky (client\<lparr>connection := connected\<rparr>)
        (ascii ''orders'', PNone, Bytes ''hi'', []) =
        (Inr PNone, [Call 1 (Publish ''hi'' [] (ascii ''orders''))])"
    by (simp add: put_body_def and_then_def on_channel_def call_def samples)
  then show ?thesis
    by (simp add: put_def ensure_connected_def flaky_loop)
qed

theorem guard_connected_while_running_witness:
  "is_running (client\<lparr>connection := connected\<rparr>)
   \<and> is_connected (connection (client\<lparr>connection := connected\<rparr>))
   \<and> connect_loop world_flaky client 0 0 [] =
       Some (None, client\<lparr>connection := connected\<rparr>, 3,
           [Connect (Some refused), Sleep 1,
            LoggerError (failure_report world_flaky 1 refused),
            Connect (Some refused), Sleep 1,
            LoggerError (failure_report world_flaky 2 refused),
            Connect None])"
proof -
  have contract: "\<forall>t c c'. connect_result world_flaky t c = Inr c' \<longrightarrow> is_connected c'"
    by (auto simp: samples split: if_splits)
  have running: "is_running (client\<lparr>connection := connected\<rparr>)"
    by (simp add: client_def)
  from guard_connected_while_running
         [OF contract flaky_put [unfolded put_def] running]
  show ?thesis
    using running by (auto simp: flaky_loop)
qed

section \<open>Every failed attempt is reported once\<close>

lemma reports_append [simp]: "reports (xs @ ys) = reports xs @ reports ys"
  by (induction xs rule: reports.induct) simp_all

lemma reports_rounds:
  "reports (concat (map (failed_round w q) nes)) = map (\<lambda>(n, e). failure_report w n e) nes"
  by (induction nes) (auto simp: failed_round_def)

lemma counts_of_rounds:
  assumes "length ns = length es"
  shows "map retry_count (map (\<lambda>(n, e). failure_report w n e) (zip ns es)) = ns"
  using assms
  by (induction ns es rule: list_induct2) (simp_all add: failure_report_def)

lemma causes_of_rounds:
  assumes "length ns = length es"
  shows "map exc_traceback (map (\<lambda>(n, e). failure_report w n e) (zip ns es)) =
           map (format_tb w) es"
  using assms
  by (induction ns es rule: list_induct2) (simp_all add: failure_report_def)

lemma connect_loop_prefix:
  assumes "\<forall>i<k. attempt_fails w (t + i) (sleeps w t q i)"
  shows "connect_loop w q t r tr =
           connect_loop w (sleeps w t q k) (t + k) (r + k) (tr @ retry_events w t q r k)"
  using assms
proof (induction k arbitrary: t q r tr)
  case 0
  then show ?case by simp
next
  case (Suc k)
  from Suc.prems have first: "attempt_fails w t q"
    by (metis add.right_neutral sleeps.simps(1) zero_less_Suc)
  have rest: "\<forall>i<k. attempt_fails w (Suc t + i) (sleeps w (Suc t) (asleep w t q) i)"
    using Suc.prems by (metis Suc_less_eq add_Suc_shift sleeps.simps(2))
  show ?case
    using Suc.IH [OF rest, of "Suc r" "tr @ round_events w t q r"]
    by (simp add: connect_loop_retry [OF first])
qed

lemma retry_events_causes:
  assumes "\<forall>i<k. attempt_fails w (t + i) (sleeps w t q i)" and "logger q \<noteq> None"
  shows "length (causes w t q k) = k \<and> list_all is_Exception (causes w t q k) \<and>
           retry_events w t q r k =
             concat (map (failed_round w q) (zip [Suc r..<Suc r + k] (causes w t q k)))"
  using assms
proof (induction k arbitrary: t q r)
  case 0
  then show ?case by simp
next
  case (Suc k)
  from Suc.prems(1) have first: "attempt_fails w t q"
    by (metis add.right_neutral sleeps.simps(1) zero_less_Suc)
  have rest: "\<forall>i<k. attempt_fails w (Suc t + i) (sleeps w (Suc t) (asleep w t q) i)"
    using Suc.prems(1) by (metis Suc_less_eq add_Suc_shift sleeps.simps(2))
  from first obtain e where e: "connect_result w t (connection q) = Inl e" "is_Exception e"
    by (auto simp: attempt_fails_def split: sum.splits)
  have fr: "failed_round w (asleep w t q) = failed_round w q"
    by (rule ext) (simp add: failed_round_def split: prod.splits)
  define es where "es = causes w (Suc t) (asleep w t q) k"
  from Suc.IH [OF rest, of "Suc r"] Suc.prems(2) have
    es: "length es = k" "list_all is_Exception es"
        "retry_events w (Suc t) (asleep w t q) (Suc r) k =
           concat (map (failed_round w q) (zip [Suc (Suc r)..<Suc (Suc r) + k] es))"
    by (auto simp: fr es_def)
  have cs: "causes w t q (Suc k) = e # es"
    using e(1) by (simp add: es_def)
  have up: "[Suc r..<Suc r + Suc k] = Suc r # [Suc (Suc r)..<Suc (Suc r) + k]"
    by (simp add: upt_conv_Cons)
  have "retry_events w t q r (Suc k) =
          concat (map (failed_round w q) (zip [Suc r..<Suc r + Suc k] (e # es)))"
    unfolding up using e es(3) Suc.prems(2)
    by (simp add: round_events_def failed_round_def)
  with es(1,2) e(2) show ?case
    unfolding cs by simp
qed

text \<open>
  Claim C4. A guarded operation is called at time \<open>t\<close> on a client \<open>q\<close> that has a
  logger, and the first \<open>k\<close> connection attempts of the call fail. Then up to there the
  call has done exactly \<open>rounds\<close>: for the \<open>n\<close>-th failed attempt (\<open>n = 1, ..., k\<close>) the
  call of \<^verbatim>\<open>_connect()\<close> that raised \<open>e\<close>, the sleep, and one call of \<^verbatim>\<open>logger.error\<close>
  with \<^verbatim>\<open>retry_count\<close> \<open>n\<close> and the formatted traceback of \<open>e\<close>. The reports are as many
  as the failed attempts, with the retry counts \<open>1, 2, ..., k\<close> in this order. From there
  the loop goes on with \<^verbatim>\<open>retries = k\<close> (this holds for every such \<open>k\<close>, also in a call
  that never returns). If the next round ends the loop, the call returns, and its events
  are \<open>rounds\<close>, then the last attempt (if there was one), then what the operation did.
\<close>

theorem guard_reports_each_failure:
  assumes "logger q \<noteq> None"
    and "\<forall>i<k. attempt_fails w (t + i) (sleeps w t q i)"
    and "s = sleeps w t q k"
    and "rounds = concat (map (failed_round w q) (zip [1..<Suc k] (causes w t q k)))"
  shows "length (causes w t q k) = k
       \<and> list_all is_Exception (causes w t q k)
       \<and> map retry_count (reports rounds) = [1..<Suc k]
       \<and> map exc_traceback (reports rounds) = map (format_tb w) (causes w t q k)
       \<and> connect_loop w q t 0 [] = connect_loop w s (t + k) k rounds
       \<and> (\<not> is_running s \<or> is_connected (connection s) \<longrightarrow>
            ensure_connected coro w t q args =
              Some (fst (coro s args), s, t + k, rounds @ snd (coro s args)))
       \<and> (\<forall>c. is_running s \<and> \<not> is_connected (connection s)
                \<and> connect_result w (t + k) (connection s) = Inr c \<longrightarrow>
            ensure_connected coro w t q args =
              Some (fst (coro (s\<lparr>connection := c\<rparr>) args), s\<lparr>connection := c\<rparr>, Suc (t + k),
                    rounds @ Connect None # snd (coro (s\<lparr>connection := c\<rparr>) args)))
       \<and> (\<forall>e. is_running s \<and> \<not> is_connected (connection s)
                \<and> connect_result w (t + k) (connection s) = Inl e \<and> \<not> is_Exception e \<longrightarrow>
            ensure_connected coro w t q args =
              Some (Inl e, s, Suc (t + k), rounds @ [Connect (Some e)]))"
proof -
  from retry_events_causes [OF assms(2,1), of 0] have
    cs: "length (causes w t q k) = k" "list_all is_Exception (causes w t q k)"
    and ev: "retry_events w t q 0 k = rounds"
    by (simp_all add: assms(4))
  have len: "length [1..<Suc k] = length (causes w t q k)"
    by (simp add: cs(1) del: upt_Suc)
  have rep: "reports rounds =
      map (\<lambda>(n, e). failure_report w n e) (zip [1..<Suc k] (causes w t q k))"
    unfolding assms(4) by (rule reports_rounds)
  have counts: "map retry_count (reports rounds) = [1..<Suc k]"
    by (simp only: rep counts_of_rounds [OF len])
  have tbs: "map exc_traceback (reports rounds) = map (format_tb w) (causes w t q k)"
    by (simp only: rep causes_of_rounds [OF len])
  have prefix: "connect_loop w q t 0 [] = connect_loop w s (t + k) k rounds"
    using connect_loop_prefix [OF assms(2), of 0 "[]"] by (simp add: ev assms(3))
  have at_once: "ensure_connected coro w t q args =
      Some (fst (coro s args), s, t + k, rounds @ snd (coro s args))"
    if "\<not> is_running s \<or> is_connected (connection s)"
  proof -
    from that have nf: "\<not> attempt_fails w (t + k) (sleeps w t q k)"
      by (auto simp: attempt_fails_def assms(3))
    from that have c: "(is_running s \<and> \<not> is_connected (connection s)) = False"
      by blast
    show ?thesis
      using ensure_connected_rounds [OF assms(2) nf, of coro args]
      by (simp add: leave_def assms(3) [symmetric] c ev)
  qed
  have after_connect: "ensure_connected coro w t q args =
      Some (fst (coro (s\<lparr>connection := c\<rparr>) args), s\<lparr>connection := c\<rparr>, Suc (t + k),
            rounds @ Connect None # snd (coro (s\<lparr>connection := c\<rparr>) args))"
    if "is_running s \<and> \<not> is_connected (connection s)
        \<and> connect_result w (t + k) (connection s) = Inr c" for c
  proof -
    from that have nf: "\<not> attempt_fails w (t + k) (sleeps w t q k)"
      by (simp add: attempt_fails_def assms(3))
    show ?thesis
      using ensure_connected_rounds [OF assms(2) nf, of coro args] that
      by (simp add: leave_def assms(3) [symmetric] ev)
  qed
  have after_raise: "ensure_connected coro w t q args =
      Some (Inl e, s, Suc (t + k), rounds @ [Connect (Some e)])"
    if "is_running s \<and> \<not> is_connected (connection s)
        \<and> connect_result w (t + k) (connection s) = Inl e \<and> \<not> is_Exception e" for e
  proof -
    from that have nf: "\<not> attempt_fails w (t + k) (sleeps w t q k)"
      by (simp add: attempt_fails_def assms(3))
    show ?thesis
      using ensure_connected_rounds [OF assms(2) nf, of coro args] that
      by (simp add: leave_def assms(3) [symmetric] ev)
  qed
  from cs counts tbs prefix at_once after_connect after_raise show ?thesis
    by blast
qed

text \<open>
  The broker refuses twice and then accepts: \<^verbatim>\<open>put\<close> reports twice, with the retry
  counts 1 and 2, before it publishes.
\<close>

theorem guard_reports_each_failure_witness:
  "logger client \<noteq> None
   \<and> causes world_flaky 0 client 2 = [refused, refused]
   \<and> put world_flaky 0 client (ascii ''orders'', PNone, Bytes ''hi'', []) =
       Some (Inr PNone, client\<lparr>connection := connected\<rparr>, 3,
           [Connect (Some refused), Sleep 1,
            LoggerError (failure_report world_flaky 1 refused),
            Connect (Some refused), Sleep 1,
            LoggerError (failure_report world_flaky 2 refused),
            Connect None, Call 1 (Publish ''hi'' [] (ascii ''orders''))])
   \<and> map retry_count (reports
          [Connect (Some refused), Sleep 1,
            LoggerError (failure_report world_flaky 1 refused),
            Connect (Some refused), Sleep 1,
            LoggerError (failure_report world_flaky 2 refused)]) = [1, 2]"
proof -
  have lg: "logger client \<noteq> None"
    by (simp add: client_def)
  have cs: "causes world_flaky 0 client 2 = [refused, refused]"
    by (simp add: numeral_2_eq_2 samples)
  have rounds: "concat (map (failed_round world_flaky client)
                  (zip [1..<Suc 2] (causes world_flaky 0 client 2))) =
      [Connect (Some refused), Sleep 1,
       LoggerError (failure_report world_flaky 1 refused),
       Connect (Some refused), Sleep 1,
       LoggerError (failure_report world_flaky 2 refused)]"
    unfolding cs
    by (simp add: upt_conv_Cons failed_round_def) (simp add: client_def numeral_2_eq_2)
  have next_round: "is_running client \<and> \<not> is_connected (connection client)
      \<and> connect_result world_flaky (0 + 2) (connection client) = Inr connected"
    by (simp add: samples)
  have body: "put_body world_flaky (client\<lparr>connection := connected\<rparr>)
        (ascii ''orders'', PNone, Bytes ''hi'', []) =
        (Inr PNone, [Call 1 (Publish ''hi'' [] (ascii ''orders''))])"
    by (simp add: put_body_def and_then_def on_channel_def call_def samples)
  note all = guard_reports_each_failure
         [OF lg flaky_rounds flaky_state [symmetric] rounds [symmetric],
          of "put_body world_flaky" "(ascii ''orders'', PNone, Bytes ''hi'', [])"]
  from all have counts: "map retry_count (reports
          [Connect (Some refused), Sleep 1,
            LoggerError (failure_report world_flaky 1 refused),
            Connect (Some refused), Sleep 1,
            LoggerError (failure_report world_flaky 2 refused)]) = [1..<Suc 2]"
    by blast
  from all next_round have "ensure_connected (put_body world_flaky) world_flaky 0 client
        (ascii ''orders'', PNone, Bytes ''hi'', []) =
      Some (fst (put_body world_flaky (client\<lparr>connection := connected\<rparr>)
                   (ascii ''orders'', PNone, Bytes ''hi'', [])),
            client\<lparr>connection := connected\<rparr>, Suc (0 + 2),
            [Connect (Some refused), Sleep 1,
             LoggerError (failure_report world_flaky 1 refused),
             Connect (Some refused), Sleep 1,
             LoggerError (failure_report world_flaky 2 refused)]
            @ Connect None # snd (put_body world_flaky (client\<lparr>connection := connected\<rparr>)
                   (ascii ''orders'', PNone, Bytes ''hi'', [])))"
    by blast
  with lg cs counts body show ?thesis
    by (simp add: put_def upt_conv_Cons)
qed

section \<open>Exceptions of the message handler\<close>

lemma handle_callback_redirects:
  assumes "callback kwargs = (Inl e, evs)" and "is_Exception e"
  shows "handle_callback d callback kwargs =
           (on_message_handle_error d e kwargs, evs @ [OnMessageHandleError e kwargs])"
  using assms by (simp add: handle_callback_def)

text \<open>
  Claim C5 as stated fails for an exception that is no
  \<^verbatim>\<open>Exception\<close>: when \<^verbatim>\<open>on_queue_message\<close> raises \<^verbatim>\<open>SystemExit\<close>, the error hook is
  not called and the task ends with that exception.
\<close>

theorem system_exit_is_not_redirected:
  "run_task (fst (handle_message world_up (ConsumptionHandler exiting_delegate (ascii ''orders''))
                    client [] 1 ''{}'' delivery PNone)) =
     (Inl (Exn SystemExit ''0''),
      [OnQueueMessage
         [(''msg'', AMQPMessage world_up (ConsumptionHandler exiting_delegate (ascii ''orders''))
                      client 1 ''{}'' delivery PNone)]])"
  by (simp add: handle_message_def Let_def handle_callback_def call_on_queue_message_def
        ConsumptionHandler_def exiting_delegate_def failing_delegate_def)

text \<open>
  Claim C5, amended: \<^verbatim>\<open>handle_message\<close> returns a new task and adds it to the loop's
  pending tasks, without running it. When the loop runs the task and
  \<^verbatim>\<open>on_queue_message\<close> raises an \<^verbatim>\<open>Exception\<close> \<open>e\<close>, the task calls
  \<^verbatim>\<open>on_message_handle_error\<close> once, with \<open>e\<close> and the keyword arguments of the original
  call (\<^verbatim>\<open>msg\<close>), and the task's outcome is the outcome of that hook.
\<close>

theorem handler_redirects_exceptions:
  assumes "handle_message w h q pending ch body env properties = (task, pending')"
    and "kw = [(''msg'', AMQPMessage w h q ch body env properties)]"
    and "on_queue_message (h_delegate h) kw = Inl e"
    and "is_Exception e"
  shows "pending' = pending @ [task]
       \<and> run_task task =
           (on_message_handle_error (h_delegate h) e kw,
            [OnQueueMessage kw, OnMessageHandleError e kw])"
proof -
  have "call_on_queue_message (h_delegate h) kw = (Inl e, [OnQueueMessage kw])"
    using assms(3) by (simp add: call_on_queue_message_def)
  then have "handle_callback (h_delegate h) (call_on_queue_message (h_delegate h)) kw =
          (on_message_handle_error (h_delegate h) e kw,
           [OnQueueMessage kw] @ [OnMessageHandleError e kw])"
    using assms(4) by (rule handle_callback_redirects)
  with assms(1,2) show ?thesis
    by (auto simp: handle_message_def Let_def)
qed

theorem handler_redirects_exceptions_witness:
  "is_Exception (Exn OtherException ''division by zero'')
   \<and> run_task (fst (handle_message world_up (ConsumptionHandler failing_delegate (ascii ''orders''))
                    client [] 1 ''{}'' delivery PNone)) =
     (Inr PNone,
      [OnQueueMessage
         [(''msg'', AMQPMessage world_up (ConsumptionHandler failing_delegate (ascii ''orders''))
                      client 1 ''{}'' delivery PNone)],
       OnMessageHandleError (Exn OtherException ''division by zero'')
         [(''msg'', AMQPMessage world_up (ConsumptionHandler failing_delegate (ascii ''orders''))
                      client 1 ''{}'' delivery PNone)]])"
proof -
  have raises: "on_queue_message
        (h_delegate (ConsumptionHandler failing_delegate (ascii ''orders'')))
        [(''msg'', AMQPMessage world_up (ConsumptionHandler failing_delegate (ascii ''orders''))
                      client 1 ''{}'' delivery PNone)] =
      Inl (Exn OtherException ''division by zero'')"
    by (simp add: ConsumptionHandler_def failing_delegate_def)
  have exc: "is_Exception (Exn OtherException ''division by zero'')"
    by simp
  from handler_redirects_exceptions [OF surjective_pairing refl raises exc] exc
  show ?thesis
    by (simp add: ConsumptionHandler_def failing_delegate_def)
qed

section \<open>\<^verbatim>\<open>put\<close> with both \<^verbatim>\<open>data\<close> and \<^verbatim>\<open>serialized_data\<close>\<close>

lemma round_events_guard: "list_all is_guard_event (round_events w t q r)"
  by (simp add: round_events_def split: sum.splits)

lemma retry_events_guard: "list_all is_guard_event (retry_events w t q r k)"
  by (induction k arbitrary: t q r) (simp_all add: round_events_guard)

lemma connect_loop_guard:
  assumes "connect_loop w q t 0 [] = Some (res, q', t', tr)"
  shows "list_all is_guard_event tr"
proof -
  from connect_loop_result [OF assms] obtain k evs where
    k: "\<not> attempt_fails w (t + k) (sleeps w t q k)"
       "leave w (t + k) (sleeps w t q k) = (res, q', t', evs)"
       "tr = [] @ retry_events w t q 0 k @ evs"
    by blast
  from leave_cases [OF k(1,2)] have "list_all is_guard_event evs" by auto
  with k(3) show ?thesis by (simp add: retry_events_guard)
qed

lemma connect_loop_raises:
  assumes "connect_loop w q t 0 [] = Some (Some e, q', t', tr)"
  shows "\<not> is_Exception e"
proof -
  from connect_loop_result [OF assms] obtain k evs where
    k: "\<not> attempt_fails w (t + k) (sleeps w t q k)"
       "leave w (t + k) (sleeps w t q k) = (Some e, q', t', evs)"
    by blast
  from leave_cases [OF k] show ?thesis by auto
qed

lemma ensure_connected_at_once:
  assumes "\<not> (is_running q \<and> \<not> is_connected (connection q))"
  shows "ensure_connected coro w t q args = Some (fst (coro q args), q, t, snd (coro q args))"
proof -
  have nf: "\<not> attempt_fails w t q"
    using assms by (auto simp: attempt_fails_def)
  have c: "(is_running q \<and> \<not> is_connected (connection q)) = False"
    using assms by blast
  show ?thesis
    by (simp add: ensure_connected_def connect_loop_leave [OF nf] add_events_def leave_def c
          split: prod.splits)
qed

text \<open>
  Claim C7 as stated fails: \<^verbatim>\<open>put\<close> is decorated, so on a
  client that is not connected the guard calls \<^verbatim>\<open>_connect()\<close> first, and the
  \<^verbatim>\<open>ValueError\<close> is raised after that network call.
\<close>

theorem put_with_both_connects_first:
  "put world_up 0 client (ascii ''orders'', PStr (ascii ''x''), Bytes ''hi'', []) =
     Some (Inl (Exn ValueError ''Only one of data or json should be specified''),
           client\<lparr>connection := connected\<rparr>, 1, [Connect None])"
proof -
  have nf: "\<not> attempt_fails world_up 0 client"
    by (simp add: samples)
  have "connect_loop world_up client 0 0 [] =
          Some (None, client\<lparr>connection := connected\<rparr>, 1, [Connect None])"
    by (simp add: connect_loop_leave [OF nf] add_events_def leave_def) (simp add: samples)
  then show ?thesis
    by (simp add: put_def ensure_connected_def put_body_def ascii_def)
qed

text \<open>
  Claim C7, amended, for \<^verbatim>\<open>put\<close> with \<^verbatim>\<open>data\<close> and \<^verbatim>\<open>serialized_data\<close> both true: on
  a client that is connected (or told to stop) the call raises the \<^verbatim>\<open>ValueError\<close> at
  once, with no call to any collaborator. On any client, if the call returns, it has
  called no channel method (so it has not published; its only events are the guard's
  connection attempts, sleeps and reports) and it raises the \<^verbatim>\<open>ValueError\<close>, unless
  \<^verbatim>\<open>_connect()\<close> raised an exception that is no \<^verbatim>\<open>Exception\<close>, which the call raises.
\<close>

theorem put_with_both_never_publishes:
  assumes "truthy data" and "text_truthy sd"
  shows "(\<not> (is_running q \<and> \<not> is_connected (connection q)) \<longrightarrow>
            put w t q (rk, data, sd, ex) =
              Some (Inl (Exn ValueError ''Only one of data or json should be specified''),
                    q, t, []))
       \<and> (\<forall>r q' t' tr. put w t q (rk, data, sd, ex) = Some (r, q', t', tr) \<longrightarrow>
            list_all is_guard_event tr
            \<and> (r = Inl (Exn ValueError ''Only one of data or json should be specified'')
                 \<or> (\<exists>e. r = Inl e \<and> \<not> is_Exception e)))"
proof (intro conjI impI allI)
  assume now: "\<not> (is_running q \<and> \<not> is_connected (connection q))"
  show "put w t q (rk, data, sd, ex) =
          Some (Inl (Exn ValueError ''Only one of data or json should be specified''), q, t, [])"
    using assms by (simp add: put_def ensure_connected_at_once [OF now] put_body_def)
next
  fix r q' t' tr
  assume ret: "put w t q (rk, data, sd, ex) = Some (r, q', t', tr)"
  have body: "\<And>s. put_body w s (rk, data, sd, ex) =
      (Inl (Exn ValueError ''Only one of data or json should be specified''), [])"
    using assms by (simp add: put_body_def)
  from ret obtain res tr0 where
    loop: "connect_loop w q t 0 [] = Some (res, q', t', tr0)"
    by (auto simp: put_def ensure_connected_def split: option.splits prod.splits)
  show "list_all is_guard_event tr"
    using ret loop connect_loop_guard [OF loop]
    by (cases res) (auto simp: put_def ensure_connected_def body)
  show "r = Inl (Exn ValueError ''Only one of data or json should be specified'')
          \<or> (\<exists>e. r = Inl e \<and> \<not> is_Exception e)"
  proof (cases res)
    case None
    with ret loop show ?thesis
      by (auto simp: put_def ensure_connected_def body)
  next
    case (Some e)
    with loop connect_loop_raises have "\<not> is_Exception e" by blast
    with Some ret loop show ?thesis
      by (auto simp: put_def ensure_connected_def)
  qed
qed

theorem put_with_both_never_publishes_witness:
  "truthy (PStr (ascii ''x'')) \<and> text_truthy (Bytes ''hi'')
   \<and> put world_up 0 (client\<lparr>connection := connected\<rparr>)
         (ascii ''orders'', PStr (ascii ''x''), Bytes ''hi'', []) =
       Some (Inl (Exn ValueError ''Only one of data or json should be specified''),
             client\<lparr>connection := connected\<rparr>, 0, [])"
proof -
  have d: "truthy (PStr (ascii ''x''))" by (simp add: ascii_def)
  have s: "text_truthy (Bytes ''hi'')" by simp
  from put_with_both_never_publishes [OF d s, of "client\<lparr>connection := connected\<rparr>"
         world_up 0 "ascii ''orders''" "[]"] d s
  show ?thesis
    by (simp add: connected_def)
qed

section \<open>Validation at construction\<close>

text \<open>
  Claim C8 as stated fails for the prefetch limit:
  \<^verbatim>\<open>__init__\<close> stores \<^verbatim>\<open>prefetch_count\<close> unchecked, so a client with a negative prefetch
  count is constructed.
\<close>

theorem negative_prefetch_is_accepted:
  "AsyncJsonQueue_init (default_args\<lparr>arg_prefetch_count := - 1\<rparr>) =
     Inr (client\<lparr>logger := None, prefetch_count := - 1\<rparr>)"
  by (simp add: AsyncJsonQueue_init_def default_args_def client_def get_event_loop_def)

text \<open>
  Claim C8, amended: a negative \<^verbatim>\<open>max_message_length\<close> makes \<^verbatim>\<open>__init__\<close> raise, and no
  client is constructed; the exception is a \<^verbatim>\<open>ValueError\<close>, unless the delegate class
  was called first and its constructor raised. \<^verbatim>\<open>prefetch_count\<close> is not validated:
  whatever its value, the outcome is the same, with that value stored.
\<close>

theorem init_validates_max_message_length_only:
  "(arg_max_message_length a < 0 \<longrightarrow>
      (\<exists>m. AsyncJsonQueue_init a = Inl (Exn ValueError m))
      \<or> (\<exists>e. arg_delegate_class a = Some (Inl e) \<and> AsyncJsonQueue_init a = Inl e))
   \<and> AsyncJsonQueue_init (a\<lparr>arg_prefetch_count := p\<rparr>) =
       (case AsyncJsonQueue_init a of
          Inl e \<Rightarrow> Inl e
        | Inr q \<Rightarrow> Inr (q\<lparr>prefetch_count := p\<rparr>))"
  by (auto simp: AsyncJsonQueue_init_def split: option.splits sum.splits)

theorem init_validates_max_message_length_only_witness:
  "arg_max_message_length (default_args\<lparr>arg_max_message_length := - 1\<rparr>) < 0
   \<and> AsyncJsonQueue_init (default_args\<lparr>arg_max_message_length := - 1\<rparr>) =
       Inl (Exn ValueError ''max_message_length must be a positive integer'')"
  using init_validates_max_message_length_only
          [of "default_args\<lparr>arg_max_message_length := - 1\<rparr>"]
  by (simp add: AsyncJsonQueue_init_def default_args_def)

section \<open>\<^verbatim>\<open>stop_consumer\<close> without a channel\<close>

text \<open>
  Claim C9. On a client whose connection has no channel, \<^verbatim>\<open>stop_consumer\<close> raises
  \<^verbatim>\<open>ConnectionError\<close> and calls no collaborator. On any client, it never calls
  \<^verbatim>\<open>_connect()\<close>, sleeps or reports: it does not go through the guard.
\<close>

theorem stop_consumer_needs_a_channel:
  "(channel (connection q) = None \<longrightarrow>
      stop_consumer w q tag =
        (Inl (Exn ConnectionError
           ''Queue isn't connected. Did you forgot to wait for `connect()`?''), []))
   \<and> list_all (\<lambda>ev. \<not> is_guard_event ev) (snd (stop_consumer w q tag))"
  by (auto simp: stop_consumer_def on_channel_def call_def)

theorem stop_consumer_needs_a_channel_witness:
  "channel (connection client) = None
   \<and> is_running client \<and> \<not> is_connected (connection client)
   \<and> stop_consumer world_up client (PStr (ascii ''ctag'')) =
        (Inl (Exn ConnectionError
           ''Queue isn't connected. Did you forgot to wait for `connect()`?''), [])"
  using stop_consumer_needs_a_channel [of client world_up "PStr (ascii ''ctag'')"]
  by (simp add: client_def new_connection_def)

section \<open>\<^verbatim>\<open>max_message_length\<close> is stored and never read\<close>

lemma least_round:
  assumes "\<not> attempt_fails w (t + n) (sleeps w t q n)"
  shows "\<exists>k. (\<forall>i<k. attempt_fails w (t + i) (sleeps w t q i))
           \<and> \<not> attempt_fails w (t + k) (sleeps w t q k)"
proof -
  from assms have "\<exists>n. \<not> attempt_fails w (t + n) (sleeps w t q n)" by blast
  then obtain k where "\<not> attempt_fails w (t + k) (sleeps w t q k)"
    and "\<forall>i<k. \<not> \<not> attempt_fails w (t + i) (sleeps w t q i)"
    unfolding exists_least_iff [where P = "\<lambda>n. \<not> attempt_fails w (t + n) (sleeps w t q n)"]
    by blast
  then show ?thesis by blast
qed

lemma asleep_limit:
  "asleep w t (q\<lparr>max_message_length := m\<rparr>) = (asleep w t q)\<lparr>max_message_length := m\<rparr>"
  by (simp add: asleep_def)

lemma sleeps_limit:
  "sleeps w t (q\<lparr>max_message_length := m\<rparr>) k = (sleeps w t q k)\<lparr>max_message_length := m\<rparr>"
  by (induction k arbitrary: t q) (simp_all add: asleep_limit)

lemma attempt_fails_limit:
  "attempt_fails w t (q\<lparr>max_message_length := m\<rparr>) = attempt_fails w t q"
  by (simp add: attempt_fails_def)

lemma retry_events_limit:
  "retry_events w t (q\<lparr>max_message_length := m\<rparr>) r k = retry_events w t q r k"
  by (induction k arbitrary: t q r)
     (simp_all add: asleep_limit round_events_def split: sum.splits)

lemma leave_limit:
  "leave w t (q\<lparr>max_message_length := m\<rparr>) =
     (case leave w t q of (res, q', t', evs) \<Rightarrow> (res, q'\<lparr>max_message_length := m\<rparr>, t', evs))"
  by (simp add: leave_def split: sum.splits)

lemma connect_loop_limit:
  "connect_loop w (q\<lparr>max_message_length := m\<rparr>) t r tr =
     with_limit m (connect_loop w q t r tr)"
proof (cases "\<exists>n. \<not> attempt_fails w (t + n) (sleeps w t q n)")
  case True
  then obtain k where
    k: "\<forall>i<k. attempt_fails w (t + i) (sleeps w t q i)"
       "\<not> attempt_fails w (t + k) (sleeps w t q k)"
    using least_round by blast
  have k': "\<forall>i<k. attempt_fails w (t + i) (sleeps w t (q\<lparr>max_message_length := m\<rparr>) i)"
       "\<not> attempt_fails w (t + k) (sleeps w t (q\<lparr>max_message_length := m\<rparr>) k)"
    using k by (simp_all add: sleeps_limit attempt_fails_limit)
  show ?thesis
    by (simp add: connect_loop_rounds [OF k] connect_loop_rounds [OF k'] sleeps_limit
          leave_limit retry_events_limit with_limit_def add_events_def split: prod.splits)
next
  case False
  then have all: "\<forall>i. attempt_fails w (t + i) (sleeps w t q i)" by blast
  then have all': "\<forall>i. attempt_fails w (t + i) (sleeps w t (q\<lparr>max_message_length := m\<rparr>) i)"
    by (simp add: sleeps_limit attempt_fails_limit)
  show ?thesis
    by (simp add: connect_loop_diverges [OF all] connect_loop_diverges [OF all'] with_limit_def)
qed

lemma ensure_connected_limit:
  assumes "\<And>s. coro (s\<lparr>max_message_length := m\<rparr>) args = coro s args"
  shows "ensure_connected coro w t (q\<lparr>max_message_length := m\<rparr>) args =
           with_limit m (ensure_connected coro w t q args)"
  by (auto simp: ensure_connected_def connect_loop_limit with_limit_def assms
        split: option.splits prod.splits)

lemma bodies_limit:
  "put_body w (s\<lparr>max_message_length := m\<rparr>) pargs = put_body w s pargs"
  "ack_body w (s\<lparr>max_message_length := m\<rparr>) msg = ack_body w s msg"
  "reject_body w (s\<lparr>max_message_length := m\<rparr>) rargs = reject_body w s rargs"
  "consume_body w (s\<lparr>max_message_length := m\<rparr>) cargs = consume_body w s cargs"
  by (simp_all add: put_body_def ack_body_def reject_body_def consume_body_def on_channel_def
        split: prod.splits)

text \<open>
  Claim C10. \<^verbatim>\<open>__init__\<close> raises on a negative \<^verbatim>\<open>max_message_length\<close> and stores any
  other. After that the value is never consulted: \<^verbatim>\<open>put\<close>, \<^verbatim>\<open>ack\<close>, \<^verbatim>\<open>reject\<close>,
  \<^verbatim>\<open>consume\<close>, \<^verbatim>\<open>stop_consumer\<close> and \<^verbatim>\<open>handle_message\<close> behave the same on a client
  with any other limit \<open>m\<close> (the guarded ones return, raise or run forever alike, with the
  same events, and leave the client with \<open>m\<close> untouched). In particular \<^verbatim>\<open>put\<close> on a
  connected client publishes the bytes \<open>b\<close> it is given, of any length.
\<close>

theorem max_message_length_is_never_consulted:
  "(arg_max_message_length a < 0 \<longrightarrow> (\<exists>e. AsyncJsonQueue_init a = Inl e))
   \<and> (\<forall>q0. AsyncJsonQueue_init a = Inr q0 \<longrightarrow>
         max_message_length q0 = arg_max_message_length a)
   \<and> put w t (q\<lparr>max_message_length := m\<rparr>) pargs = with_limit m (put w t q pargs)
   \<and> ack w t (q\<lparr>max_message_length := m\<rparr>) msg = with_limit m (ack w t q msg)
   \<and> reject w t (q\<lparr>max_message_length := m\<rparr>) rargs = with_limit m (reject w t q rargs)
   \<and> consume w t (q\<lparr>max_message_length := m\<rparr>) cargs = with_limit m (consume w t q cargs)
   \<and> stop_consumer w (q\<lparr>max_message_length := m\<rparr>) tag = stop_consumer w q tag
   \<and> handle_message w h (q\<lparr>max_message_length := m\<rparr>) pending ch body env properties =
       handle_message w h q pending ch body env properties
   \<and> (is_connected (connection q) \<and> channel (connection q) = Some c \<longrightarrow>
        put w t q (rk, PNone, Bytes b, ex) =
          Some (channel_call w c (Publish b ex rk), q, t, [Call c (Publish b ex rk)]))"
proof (intro conjI impI allI)
  assume "arg_max_message_length a < 0"
  then show "\<exists>e. AsyncJsonQueue_init a = Inl e"
    by (auto simp: AsyncJsonQueue_init_def split: option.splits sum.splits)
next
  fix q0
  assume "AsyncJsonQueue_init a = Inr q0"
  then show "max_message_length q0 = arg_max_message_length a"
    by (auto simp: AsyncJsonQueue_init_def split: option.splits sum.splits if_splits)
next
  show "put w t (q\<lparr>max_message_length := m\<rparr>) pargs = with_limit m (put w t q pargs)"
    unfolding put_def by (rule ensure_connected_limit) (rule bodies_limit)
  show "ack w t (q\<lparr>max_message_length := m\<rparr>) msg = with_limit m (ack w t q msg)"
    unfolding ack_def by (rule ensure_connected_limit) (rule bodies_limit)
  show "reject w t (q\<lparr>max_message_length := m\<rparr>) rargs = with_limit m (reject w t q rargs)"
    unfolding reject_def by (rule ensure_connected_limit) (rule bodies_limit)
  show "consume w t (q\<lparr>max_message_length := m\<rparr>) cargs = with_limit m (consume w t q cargs)"
    unfolding consume_def by (rule ensure_connected_limit) (rule bodies_limit)
  show "stop_consumer w (q\<lparr>max_message_length := m\<rparr>) tag = stop_consumer w q tag"
    by (simp add: stop_consumer_def on_channel_def)
  show "handle_message w h (q\<lparr>max_message_length := m\<rparr>) pending ch body env properties =
          handle_message w h q pending ch body env properties"
    by (simp add: handle_message_def AMQPMessage_def)
next
  assume c: "is_connected (connection q) \<and> channel (connection q) = Some c"
  then have now: "\<not> (is_running q \<and> \<not> is_connected (connection q))" by simp
  show "put w t q (rk, PNone, Bytes b, ex) =
          Some (channel_call w c (Publish b ex rk), q, t, [Call c (Publish b ex rk)])"
    using c
    by (simp add: put_def ensure_connected_at_once [OF now] put_body_def and_then_def
          on_channel_def call_def)
qed

theorem max_message_length_is_never_consulted_witness:
  "max_message_length (client\<lparr>connection := connected, max_message_length := 1\<rparr>) = 1
   \<and> length ''hello'' = 5
   \<and> put world_up 0 (client\<lparr>connection := connected, max_message_length := 1\<rparr>)
         (ascii ''orders'', PNone, Bytes ''hello'', []) =
       Some (Inr PNone, client\<lparr>connection := connected, max_message_length := 1\<rparr>, 0,
             [Call 1 (Publish ''hello'' [] (ascii ''orders''))])"
proof -
  have c: "is_connected (connection (client\<lparr>connection := connected, max_message_length := 1\<rparr>))
      \<and> channel (connection (client\<lparr>connection := connected, max_message_length := 1\<rparr>)) = Some 1"
    by (simp add: connected_def)
  from max_message_length_is_never_consulted
          [where w = world_up and t = 0 and c = 1 and rk = "ascii ''orders''"
             and b = "''hello''" and ex = "[]"
             and q = "client\<lparr>connection := connected, max_message_length := 1\<rparr>",
           THEN conjunct2, THEN conjunct2, THEN conjunct2, THEN conjunct2,
           THEN conjunct2, THEN conjunct2, THEN conjunct2, THEN conjunct2]
       c
  show ?thesis
    by (simp add: world_up_def)
qed

section \<open>Lemmas about the JSON codec\<close>

subsection \<open>Strings\<close>

lemma hex_val_digit: "d < 16 \<Longrightarrow> hex_val (hex_digit d) = Some d"
  by (auto simp: hex_val_def hex_digit_def)

lemma hex_value:
  fixes n :: nat
  assumes "n < 65536"
  shows "((n div 4096 mod 16 * 16 + n div 256 mod 16) * 16 + n div 16 mod 16) * 16
           + n mod 16 = n"
proof -
  have d256: "n div 256 = n div 16 div 16"
    using div_mult2_eq [of n 16 16] by simp
  have d4096: "n div 4096 = n div 16 div 16 div 16"
    using div_mult2_eq [of n 256 16] d256 by simp
  have "n div 4096 < 16"
    using assms by simp
  then have top: "n div 16 div 16 div 16 mod 16 = n div 16 div 16 div 16"
    by (simp add: d4096)
  show ?thesis
    unfolding d256 d4096 top by (simp only: div_mult_mod_eq)
qed

lemma hex4_hex4_text:
  assumes "n < 65536"
  shows "hex4 (hex4_text n @ r) = Some (n, r)"
proof -
  have v: "hex_val (hex_digit (n div 4096 mod 16)) = Some (n div 4096 mod 16)"
    "hex_val (hex_digit (n div 256 mod 16)) = Some (n div 256 mod 16)"
    "hex_val (hex_digit (n div 16 mod 16)) = Some (n div 16 mod 16)"
    "hex_val (hex_digit (n mod 16)) = Some (n mod 16)"
    by (rule hex_val_digit, simp)+
  show ?thesis
    unfolding hex4_text_def
    by (simp only: append_Cons append_Nil hex4.simps v prod.case option.case
          hex_value [OF assms])
qed

lemma surrogates_value:
  fixes c :: nat
  assumes "0x10000 \<le> c" and "c < 0x110000"
  shows "0x10000 + (0xD800 + (c - 0x10000) div 1024 mod 1024 - 0xD800) * 1024
           + (0xDC00 + (c - 0x10000) mod 1024 - 0xDC00) = c"
proof -
  have "(c - 0x10000) div 1024 < 1024"
    using assms by simp
  then have "(c - 0x10000) div 1024 mod 1024 = (c - 0x10000) div 1024"
    by simp
  moreover have "(c - 0x10000) div 1024 * 1024 + (c - 0x10000) mod 1024 = c - 0x10000"
    by (rule div_mult_mod_eq)
  ultimately show ?thesis
    using assms(1) by simp
qed

lemma scan_u_escape:
  assumes "n < 0xD800 \<or> (0xDC00 \<le> n \<and> n < 65536)"
  shows "scan_string (u_escape n @ r) = cons_char n (scan_string r)"
proof -
  have n: "n < 65536" using assms by auto
  have no: "(0xD800 \<le> n \<and> n < 0xDC00 \<and> take 2 r = [92, 117]) = False"
    using assms by auto
  show ?thesis
    by (simp add: u_escape_def scan_string.simps hex4_hex4_text [OF n] no)
qed

lemma scan_surrogates:
  assumes "0x10000 \<le> c" and "c < 0x110000"
  shows "scan_string (u_escape (0xD800 + (c - 0x10000) div 1024 mod 1024)
                      @ u_escape (0xDC00 + (c - 0x10000) mod 1024) @ r) =
           cons_char c (scan_string r)"
proof -
  define hi where "hi = 0xD800 + (c - 0x10000) div 1024 mod 1024"
  define lo where "lo = 0xDC00 + (c - 0x10000) mod 1024"
  have hi: "hi < 65536" and hi2: "(0xD800 \<le> hi \<and> hi < 0xDC00) = True"
    by (simp_all add: hi_def)
  have lo: "lo < 65536" and lo2: "(0xDC00 \<le> lo \<and> lo < 0xE000) = True"
    by (simp_all add: lo_def)
  have c: "0x10000 + (hi - 0xD800) * 1024 + (lo - 0xDC00) = c"
    unfolding hi_def lo_def by (rule surrogates_value [OF assms])
  have "scan_string (u_escape hi @ u_escape lo @ r) = cons_char c (scan_string r)"
    by (simp only: u_escape_def append_Cons scan_string.simps hex4_hex4_text [OF hi]
          hex4_hex4_text [OF lo] hi2 lo2 c take_Suc_Cons take_0 drop_Suc_Cons drop_0
          numeral_2_eq_2 list.case option.case prod.case if_True if_False simp_thms
          refl HOL.simp_thms)
       simp
  then show ?thesis by (simp only: hi_def lo_def)
qed

lemma scan_escape_char:
  assumes "c < 0x110000" and "\<not> high_surrogate c"
  shows "scan_string (escape_char True c @ r) = cons_char c (scan_string r)"
proof (cases "c < 32")
  case True
  show ?thesis
  proof (cases "c = 8 \<or> c = 12 \<or> c = 10 \<or> c = 13 \<or> c = 9")
    case True
    then show ?thesis
      by (auto simp: escape_char_def scan_string.simps unescape_def)
  next
    case False
    with True have "escape_char True c = u_escape c"
      by (simp add: escape_char_def)
    moreover from True have "c < 0xD800 \<or> (0xDC00 \<le> c \<and> c < 65536)"
      by simp
    ultimately show ?thesis
      by (simp add: scan_u_escape)
  qed
next
  case False
  show ?thesis
  proof (cases "c \<le> 126")
    case True
    show ?thesis
    proof (cases "c = 34 \<or> c = 92")
      case True
      then show ?thesis
        by (auto simp: escape_char_def scan_string.simps unescape_def)
    next
      case False
      with \<open>\<not> c < 32\<close> \<open>c \<le> 126\<close> have "escape_char True c = [c]"
        by (simp add: escape_char_def)
      with False \<open>\<not> c < 32\<close> show ?thesis
        by (simp add: scan_string.simps)
    qed
  next
    case False
    show ?thesis
    proof (cases "c < 0x10000")
      case True
      with False have "escape_char True c = u_escape c"
        by (simp add: escape_char_def)
      moreover from True assms have "c < 0xD800 \<or> (0xDC00 \<le> c \<and> c < 65536)"
        by (auto simp: high_surrogate_def)
      ultimately show ?thesis
        by (simp add: scan_u_escape)
    next
      case big: False
      with False have "escape_char True c =
          u_escape (0xD800 + (c - 0x10000) div 1024 mod 1024)
          @ u_escape (0xDC00 + (c - 0x10000) mod 1024)"
        by (simp add: escape_char_def)
      moreover from big assms have "0x10000 \<le> c" "c < 0x110000"
        by auto
      ultimately show ?thesis
        by (simp only: scan_surrogates append_assoc)
    qed
  qed
qed

text \<open>
  A high surrogate on its own is read back as it is, when what follows its escape is no
  escaped low surrogate: either no \<^verbatim>\<open>\u\<close> escape at all, or the escape of another code
  unit.
\<close>

lemma scan_high_surrogate:
  assumes "high_surrogate c"
    and "take 2 X \<noteq> [92, 117]
         \<or> (\<exists>n Y. X = u_escape n @ Y \<and> n < 65536 \<and> \<not> low_surrogate n)"
  shows "scan_string (u_escape c @ X) = cons_char c (scan_string X)"
proof -
  from assms(1) have c: "c < 65536" and hi: "(0xD800 \<le> c \<and> c < 0xDC00) = True"
    by (simp_all add: high_surrogate_def)
  have unfolded: "scan_string (u_escape c @ X) =
      (if take 2 X = [92, 117] then
         (case hex4 (drop 2 X) of
            None \<Rightarrow> None
          | Some (u2, r2) \<Rightarrow>
              if 0xDC00 \<le> u2 \<and> u2 < 0xE000 then
                cons_char (0x10000 + (c - 0xD800) * 1024 + (u2 - 0xDC00)) (scan_string r2)
              else cons_char c (scan_string X))
       else cons_char c (scan_string X))"
    unfolding u_escape_def append_Cons
    by (subst scan_string.simps) (simp add: hex4_hex4_text [OF c] hi)
  from assms(2) show ?thesis
  proof
    assume "take 2 X \<noteq> [92, 117]"
    with unfolded show ?thesis by simp
  next
    assume "\<exists>n Y. X = u_escape n @ Y \<and> n < 65536 \<and> \<not> low_surrogate n"
    then obtain n Y where X: "X = u_escape n @ Y" and n: "n < 65536" "\<not> low_surrogate n"
      by blast
    have a: "take 2 X = [92, 117]"
      by (simp add: X u_escape_def)
    have b: "hex4 (drop 2 X) = Some (n, Y)"
      by (simp add: X u_escape_def hex4_hex4_text [OF n(1)])
    have "\<not> (0xDC00 \<le> n \<and> n < 0xE000)"
      using n(2) by (simp add: low_surrogate_def)
    then show ?thesis
      unfolding unfolded a b by auto
  qed
qed

lemma escape_next:
  assumes "c < 0x110000" and "\<not> low_surrogate c"
  shows "take 2 (escape_char True c @ Y) \<noteq> [92, 117]
         \<or> (\<exists>n Z. escape_char True c @ Y = u_escape n @ Z \<and> n < 65536 \<and> \<not> low_surrogate n)"
proof (cases "c = 34 \<or> c = 92 \<or> c = 8 \<or> c = 12 \<or> c = 10 \<or> c = 13 \<or> c = 9")
  case True
  then have "take 2 (escape_char True c @ Y) \<noteq> [92, 117]"
    by (auto simp: escape_char_def)
  then show ?thesis ..
next
  case plain: False
  show ?thesis
  proof (cases "32 \<le> c \<and> c \<le> 126")
    case True
    with plain have "escape_char True c = [c]"
      by (simp add: escape_char_def)
    with plain have "take 2 (escape_char True c @ Y) \<noteq> [92, 117]"
      by simp
    then show ?thesis ..
  next
    case False
    show ?thesis
    proof (cases "c < 0x10000")
      case True
      with plain False have "escape_char True c = u_escape c"
        by (auto simp: escape_char_def)
      with True assms(2) have "escape_char True c @ Y = u_escape c @ Y \<and> c < 65536
          \<and> \<not> low_surrogate c"
        by simp
      then show ?thesis by blast
    next
      case big: False
      define hi where "hi = 0xD800 + (c - 0x10000) div 1024 mod 1024"
      from plain False big have "escape_char True c =
          u_escape hi @ u_escape (0xDC00 + (c - 0x10000) mod 1024)"
        by (simp add: escape_char_def hi_def)
      moreover have "hi < 65536" "\<not> low_surrogate hi"
        by (simp_all add: hi_def low_surrogate_def)
      ultimately have "escape_char True c @ Y =
          u_escape hi @ (u_escape (0xDC00 + (c - 0x10000) mod 1024) @ Y) \<and> hi < 65536
          \<and> \<not> low_surrogate hi"
        by simp
      then show ?thesis by blast
    qed
  qed
qed

lemma no_pair_tail: "no_pair (c # s) \<Longrightarrow> no_pair s"
  by (cases s) simp_all

lemma scan_escaped:
  assumes "json_str s"
  shows "scan_string (concat (map (escape_char True) s) @ 34 # r) = Some (s, r)"
  using assms
proof (induction s)
  case Nil
  then show ?case by (simp add: scan_string.simps)
next
  case (Cons c s)
  from Cons.prems have c: "c < 0x110000" and s: "json_str s"
    by (auto simp: json_str_def dest: no_pair_tail)
  define X where "X = concat (map (escape_char True) s) @ 34 # r"
  from Cons.IH [OF s] have X: "scan_string X = Some (s, r)"
    by (simp add: X_def)
  have "scan_string (escape_char True c @ X) = cons_char c (scan_string X)"
  proof (cases "high_surrogate c")
    case False
    with c show ?thesis by (rule scan_escape_char)
  next
    case True
    then have e: "escape_char True c = u_escape c"
      by (simp add: escape_char_def high_surrogate_def)
    have "take 2 X \<noteq> [92, 117]
         \<or> (\<exists>n Y. X = u_escape n @ Y \<and> n < 65536 \<and> \<not> low_surrogate n)"
    proof (cases s)
      case Nil
      then show ?thesis by (simp add: X_def)
    next
      case (Cons c' s')
      with Cons.prems True have "c' < 0x110000" "\<not> low_surrogate c'"
        by (auto simp: json_str_def)
      from escape_next [OF this] Cons show ?thesis
        by (simp add: X_def)
    qed
    with True show ?thesis
      unfolding e by (rule scan_high_surrogate)
  qed
  with X show ?case
    by (simp add: X_def cons_char_def)
qed

subsection \<open>Integers\<close>

lemma dec_zero: "dec 0 = [48]"
  by (subst dec.simps) simp

lemma digits_val_dec:
  "digits_val acc (dec n @ r) = digits_val (acc * 10 ^ length (dec n) + n) r"
proof (induction n arbitrary: acc r rule: dec.induct)
  case (1 n)
  show ?case
  proof (cases "n < 10")
    case True
    then have "dec n = [48 + n]"
      by (subst dec.simps) simp
    with True show ?thesis
      by (simp add: digit_def)
  next
    case False
    then have d: "dec n = dec (n div 10) @ [48 + n mod 10]"
      by (subst dec.simps) simp
    have "digits_val acc (dec n @ r) =
            digits_val acc (dec (n div 10) @ (48 + n mod 10) # r)"
      by (simp add: d)
    also have "\<dots> = digits_val (acc * 10 ^ length (dec (n div 10)) + n div 10)
                       ((48 + n mod 10) # r)"
      by (rule "1.IH" [OF False])
    also have "\<dots> = digits_val ((acc * 10 ^ length (dec (n div 10)) + n div 10) * 10
                                  + n mod 10) r"
    proof -
      have "n mod 10 < 10" by simp
      then have "digit (48 + n mod 10)"
        unfolding digit_def by linarith
      then show ?thesis
        by (simp only: digits_val.simps if_True add_diff_cancel_left')
    qed
    also have "(acc * 10 ^ length (dec (n div 10)) + n div 10) * 10 + n mod 10 =
                 acc * 10 ^ length (dec n) + n"
      by (simp add: d algebra_simps)
    finally show ?thesis .
  qed
qed

lemma dec_head:
  "0 < n \<Longrightarrow> \<exists>d ds. dec n = d # ds \<and> 49 \<le> d \<and> d \<le> 57"
proof (induction n rule: dec.induct)
  case (1 n)
  show ?case
  proof (cases "n < 10")
    case True
    then have "dec n = [48 + n]"
      by (subst dec.simps) simp
    with True "1.prems" show ?thesis by simp
  next
    case False
    then have d: "dec n = dec (n div 10) @ [48 + n mod 10]"
      by (subst dec.simps) simp
    from False have "0 < n div 10" by simp
    from "1.IH" [OF False this] obtain d0 ds where
      "dec (n div 10) = d0 # ds" "49 \<le> d0" "d0 \<le> 57" by blast
    with d show ?thesis by simp
  qed
qed

lemma after_number:
  assumes "delimited r"
  shows "digits_val a r = (a, r)" and "is_frac r = False" and "is_exp r = False"
    and "dropWhile digit r = r" and "skip_frac r = r" and "skip_exp r = r"
proof -
  show "digits_val a r = (a, r)"
    using assms by (cases r) (auto simp: digit_def)
  show "is_frac r = False"
    using assms by (cases r rule: is_frac.cases) auto
  show "is_exp r = False"
    using assms by (cases r rule: is_exp.cases) auto
  show "dropWhile digit r = r"
    using assms by (cases r) (auto simp: digit_def)
  show "skip_frac r = r"
    using assms by (cases r rule: skip_frac.cases) auto
  show "skip_exp r = r"
    using assms by (cases r rule: skip_exp.cases) auto
qed

lemma parse_int_dec:
  assumes "delimited r"
  shows "parse_int (dec n @ r) = Some (n, r)"
proof (cases "n = 0")
  case True
  then show ?thesis by (simp add: dec_zero)
next
  case False
  then obtain d ds where d: "dec n = d # ds" "49 \<le> d" "d \<le> 57"
    using dec_head by blast
  have "digits_val 0 (dec n @ r) = digits_val (d - 48) (ds @ r)"
    using d by (simp add: digit_def)
  then have "digits_val (d - 48) (ds @ r) = (n, r)"
    by (simp add: digits_val_dec after_number(1) [OF assms])
  with d show ?thesis by simp
qed

lemma dec_first:
  "\<exists>d ds. dec n = d # ds \<and> 48 \<le> d \<and> d \<le> 57"
proof (cases "n = 0")
  case True
  then show ?thesis by (simp add: dec_zero)
next
  case False
  then show ?thesis using dec_head [of n] by auto
qed

lemma parse_number_int_text:
  assumes "delimited r" and "\<not> too_long I (length (dec (nat \<bar>i\<bar>)))"
  shows "parse_number I (int_text i @ r) = Some (Inr (PInt i, r))"
proof (cases "i < 0")
  case True
  then have a: "nat \<bar>i\<bar> = nat (- i)" by simp
  have u: "unsigned (int_text i @ r) = dec (nat (- i)) @ r"
    "expect 45 (int_text i @ r) \<noteq> None"
    using True by (simp_all add: unsigned_def int_text_def)
  have "length (dec (nat (- i)) @ r) - length r = length (dec (nat (- i)))"
    by simp
  with True assms(2) show ?thesis
    unfolding parse_number_def u(1) a
    using u(2) by (simp add: parse_int_dec [OF assms(1)] after_number(2,3) [OF assms(1)])
next
  case False
  then have a: "nat \<bar>i\<bar> = nat i" by simp
  obtain d ds where d: "dec (nat i) = d # ds" "48 \<le> d" "d \<le> 57"
    using dec_first by blast
  then have u: "unsigned (int_text i @ r) = dec (nat i) @ r"
    "expect 45 (int_text i @ r) = None"
    using False by (simp_all add: unsigned_def int_text_def)
  have "length (dec (nat i) @ r) - length r = length (dec (nat i))"
    by simp
  with False assms(2) show ?thesis
    unfolding parse_number_def u(1) a
    using u(2) by (simp add: parse_int_dec [OF assms(1)] after_number(2,3) [OF assms(1)])
qed

lemma int_text_head:
  "\<exists>d ds. int_text i = d # ds \<and> (d = 45 \<or> (48 \<le> d \<and> d \<le> 57))"
proof (cases "i < 0")
  case True
  then show ?thesis by (simp add: int_text_def)
next
  case False
  then show ?thesis
    using dec_first [of "nat i"] by (auto simp: int_text_def)
qed

subsection \<open>Floats\<close>

text \<open>A number read from the head of a text is read the same with a delimiter after it.\<close>

lemma digits_val_append:
  assumes "delimited r"
  shows "digits_val a (s @ r) = (fst (digits_val a s), snd (digits_val a s) @ r)"
  by (induction s arbitrary: a) (simp_all add: after_number(1) [OF assms])

lemma parse_int_append:
  assumes "delimited r" and "parse_int s = Some (n, s')"
  shows "parse_int (s @ r) = Some (n, s' @ r)"
  using assms(2)
  by (cases s) (auto simp: digits_val_append [OF assms(1)] split: if_splits)

lemma drop_digits_append:
  assumes "delimited r"
  shows "dropWhile digit (s @ r) = dropWhile digit s @ r"
  by (induction s) (simp_all add: after_number(4) [OF assms])

lemma short_or_long:
  fixes s :: str
  obtains (long) p d r' where "s = p # d # r'" | (empty) "s = []" | (single) v where "s = [v]"
  by (cases s rule: is_frac.cases) auto

lemma is_frac_append:
  assumes "delimited r"
  shows "is_frac (s @ r) = is_frac s"
proof (cases s rule: short_or_long)
  case (long p d r')
  then show ?thesis by simp
next
  case empty
  then show ?thesis by (simp add: after_number(2) [OF assms])
next
  case (single v)
  then show ?thesis using assms by (cases r) (auto simp: digit_def)
qed

lemma skip_frac_append:
  assumes "delimited r"
  shows "skip_frac (s @ r) = skip_frac s @ r"
proof (cases s rule: short_or_long)
  case (long p d r')
  then show ?thesis by (simp add: drop_digits_append [OF assms])
next
  case empty
  then show ?thesis by (simp add: after_number(5) [OF assms])
next
  case (single v)
  then show ?thesis using assms by (cases r) (auto simp: digit_def)
qed

lemma is_exp_append:
  assumes "delimited r"
  shows "is_exp (s @ r) = is_exp s"
proof (cases s rule: short_or_long)
  case (long e d r')
  then show ?thesis using assms by (cases r'; cases r) (auto simp: digit_def)
next
  case empty
  then show ?thesis by (simp add: after_number(3) [OF assms])
next
  case (single v)
  then show ?thesis using assms by (cases r) (auto simp: digit_def)
qed

lemma skip_exp_append:
  assumes "delimited r"
  shows "skip_exp (s @ r) = skip_exp s @ r"
proof (cases s rule: short_or_long)
  case (long e d r')
  then show ?thesis
    using assms
    by (cases r'; cases r) (auto simp: digit_def drop_digits_append)
next
  case empty
  then show ?thesis by (simp add: after_number(6) [OF assms])
next
  case (single v)
  then show ?thesis using assms by (cases r) (auto simp: digit_def)
qed

lemma float_literal_parts:
  assumes "float_literal t"
  obtains n r1 where "parse_int (unsigned t) = Some (n, r1)" and "is_frac r1 \<or> is_exp r1"
    and "skip_exp (skip_frac r1) = []" and "t \<noteq> []"
proof -
  from assms obtain n r1 where "parse_int (unsigned t) = Some (n, r1)"
    "is_frac r1 \<or> is_exp r1" "skip_exp (skip_frac r1) = []"
    by (auto simp: float_literal_def split: option.splits)
  moreover from assms have "t \<noteq> []"
    by (auto simp: float_literal_def unsigned_def)
  ultimately show ?thesis by (rule that)
qed

lemma parse_number_float:
  assumes "float_literal t" and "delimited r"
  shows "parse_number I (t @ r) = Some (Inr (PFloat (float_repr I t), r))"
proof -
  from assms(1) obtain n r1 where p: "parse_int (unsigned t) = Some (n, r1)"
    and f: "is_frac r1 \<or> is_exp r1" and e: "skip_exp (skip_frac r1) = []" and t: "t \<noteq> []"
    by (rule float_literal_parts)
  from t have "unsigned (t @ r) = unsigned t @ r"
    by (cases t) (simp_all add: unsigned_def)
  then have "parse_int (unsigned (t @ r)) = Some (n, r1 @ r)"
    using parse_int_append [OF assms(2) p] by simp
  moreover have "is_frac (r1 @ r) \<or> is_exp (r1 @ r)"
    using f by (simp add: is_frac_append [OF assms(2)] is_exp_append [OF assms(2)])
  moreover have "skip_exp (skip_frac (r1 @ r)) = r"
    by (simp add: skip_frac_append [OF assms(2)] skip_exp_append [OF assms(2)] e)
  ultimately show ?thesis
    by (simp add: parse_number_def)
qed

text \<open>The text of a float is ASCII and starts as a number does.\<close>

lemma digits_val_takes:
  "\<exists>p. s = p @ snd (digits_val a s) \<and> list_all digit p"
proof (induction s arbitrary: a)
  case Nil
  then show ?case by simp
next
  case (Cons c s)
  show ?case
  proof (cases "digit c")
    case True
    from Cons [of "a * 10 + (c - 48)"] obtain p where
      "s = p @ snd (digits_val (a * 10 + (c - 48)) s)" "list_all digit p"
      by blast
    with True have "c # s = (c # p) @ snd (digits_val a (c # s)) \<and> list_all digit (c # p)"
      by simp
    then show ?thesis by blast
  next
    case False
    then have "c # s = [] @ snd (digits_val a (c # s)) \<and> list_all digit []"
      by simp
    then show ?thesis by blast
  qed
qed

lemma parse_int_takes:
  assumes "parse_int s = Some (n, s')"
  shows "\<exists>c p. s = (c # p) @ s' \<and> list_all digit (c # p)"
proof (cases s)
  case Nil
  with assms show ?thesis by simp
next
  case (Cons c cs)
  show ?thesis
  proof (cases "c = 48")
    case True
    with assms Cons have "s = (c # []) @ s' \<and> list_all digit (c # [])"
      by (simp add: digit_def)
    then show ?thesis by blast
  next
    case False
    with assms Cons have c: "49 \<le> c \<and> c \<le> 57" and s': "s' = snd (digits_val (c - 48) cs)"
      by (auto split: if_splits)
    from digits_val_takes [of cs "c - 48"] obtain p where
      "cs = p @ snd (digits_val (c - 48) cs)" "list_all digit p"
      by blast
    with c s' Cons have "s = (c # p) @ s' \<and> list_all digit (c # p)"
      by (simp add: digit_def)
    then show ?thesis by blast
  qed
qed

lemma drop_digits_takes: "\<exists>p. s = p @ dropWhile digit s \<and> list_all digit p"
proof -
  have "s = takeWhile digit s @ dropWhile digit s \<and> list_all digit (takeWhile digit s)"
    by (auto simp: list_all_iff dest: set_takeWhileD)
  then show ?thesis by blast
qed

lemma digits_ascii: "list_all digit p \<Longrightarrow> list_all (\<lambda>c. c < 128) p"
  by (induction p) (auto simp: digit_def)

lemma skip_frac_takes: "\<exists>p. s = p @ skip_frac s \<and> list_all (\<lambda>c. c < 128) p"
proof (cases "is_frac s")
  case True
  then obtain d r where s: "s = 46 # d # r" "digit d"
    by (cases s rule: is_frac.cases) auto
  from drop_digits_takes [of r] obtain p where p: "r = p @ dropWhile digit r" "list_all digit p"
    by blast
  from s p(1) have "s = (46 # d # p) @ skip_frac s"
    by simp
  moreover from s(2) p(2) have "list_all (\<lambda>c. c < 128) (46 # d # p)"
    by (simp add: digits_ascii) (simp add: digit_def)
  ultimately show ?thesis by blast
next
  case False
  then have "skip_frac s = s"
    by (cases s rule: is_frac.cases) auto
  then have "s = [] @ skip_frac s \<and> list_all (\<lambda>c. c < 128) []"
    by simp
  then show ?thesis by blast
qed

lemma skip_exp_takes: "\<exists>p. s = p @ skip_exp s \<and> list_all (\<lambda>c. c < 128) p"
proof (cases "is_exp s")
  case True
  then obtain e d r where s: "s = e # d # r" "e = 101 \<or> e = 69"
    "digit d \<or> ((d = 43 \<or> d = 45) \<and> (\<exists>d2 r2. r = d2 # r2 \<and> digit d2))"
    by (cases s rule: is_exp.cases) (auto split: list.splits)
  show ?thesis
  proof (cases "digit d")
    case True
    from drop_digits_takes [of r] obtain p where
      p: "r = p @ dropWhile digit r" "list_all digit p"
      by blast
    from s(1,2) True p(1) have "s = (e # d # p) @ skip_exp s"
      by auto
    moreover from s(2) True p(2) have "list_all (\<lambda>c. c < 128) (e # d # p)"
      by (auto simp: digits_ascii digit_def)
    ultimately show ?thesis by blast
  next
    case False
    with s(3) obtain d2 r2 where r: "d = 43 \<or> d = 45" "r = d2 # r2" "digit d2"
      by blast
    from drop_digits_takes [of r2] obtain p where
      p: "r2 = p @ dropWhile digit r2" "list_all digit p"
      by blast
    from s(1,2) False r p(1) have "s = (e # d # d2 # p) @ skip_exp s"
      by auto
    moreover from s(2) r p(2) have "list_all (\<lambda>c. c < 128) (e # d # d2 # p)"
      by (auto simp: digits_ascii digit_def)
    ultimately show ?thesis by blast
  qed
next
  case False
  then have "skip_exp s = s"
    by (cases s rule: skip_exp.cases) (auto split: list.splits)
  then have "s = [] @ skip_exp s \<and> list_all (\<lambda>c. c < 128) []"
    by simp
  then show ?thesis by blast
qed

lemma float_literal_text:
  assumes "float_literal t"
  shows "list_all (\<lambda>c. c < 128) t" and "\<exists>c cs. t = c # cs \<and> (c = 45 \<or> digit c)"
proof -
  from assms obtain n r1 where p: "parse_int (unsigned t) = Some (n, r1)"
    and e: "skip_exp (skip_frac r1) = []"
    by (rule float_literal_parts)
  from parse_int_takes [OF p] obtain c p1 where
    p1: "unsigned t = (c # p1) @ r1" "list_all digit (c # p1)"
    by blast
  from skip_frac_takes [of r1] obtain p2 where
    p2: "r1 = p2 @ skip_frac r1" "list_all (\<lambda>c. c < 128) p2"
    by blast
  from skip_exp_takes [of "skip_frac r1"] e obtain p3 where
    p3: "skip_frac r1 = p3" "list_all (\<lambda>c. c < 128) p3"
    by auto
  from p1(1) p2(1) p3(1) have u: "unsigned t = c # p1 @ p2 @ p3"
    by simp
  from p1(2) have "list_all (\<lambda>c. c < 128) (c # p1)"
    by (rule digits_ascii)
  with p2(2) p3(2) have ascii_u: "list_all (\<lambda>c. c < 128) (unsigned t)"
    unfolding u by simp
  define u' where "u' = unsigned t"
  have t: "t = u' \<or> t = 45 # u'"
    unfolding u'_def by (cases t) (auto simp: unsigned_def)
  from ascii_u have "list_all (\<lambda>c. c < 128) u'"
    by (simp add: u'_def)
  with t show "list_all (\<lambda>c. c < 128) t"
    by auto
  from u have "u' = c # p1 @ p2 @ p3"
    by (simp add: u'_def)
  with t p1(2) show "\<exists>c cs. t = c # cs \<and> (c = 45 \<or> digit c)"
    by auto
qed

lemma float_literal_float_text:
  assumes "float_literal t"
  shows "float_text t = t"
proof -
  have "\<not> float_literal (ascii ''nan'')" "\<not> float_literal (ascii ''inf'')"
    "\<not> float_literal (ascii ''-inf'')"
    by (simp_all add: float_literal_def unsigned_def ascii_def)
  with assms show ?thesis
    by (auto simp: float_text_def)
qed

subsection \<open>Values\<close>

lemma skip_ws_value: "starts_value t \<Longrightarrow> skip_ws (t @ r) = t @ r"
  by (cases t) (auto simp: skip_ws_def ws_def digit_def)

lemma skip_ws_blank: "skip_ws (32 # r) = skip_ws r"
  by (simp add: skip_ws_def ws_def)

lemma skip_ws_delimiter:
  "skip_ws (44 # r) = 44 # r" "skip_ws (93 # r) = 93 # r" "skip_ws (125 # r) = 125 # r"
  "skip_ws (58 # r) = 58 # r"
  by (simp_all add: skip_ws_def ws_def)

lemma no_bracket: "starts_value t \<Longrightarrow> expect 93 (t @ r) = None \<and> expect 125 (t @ r) = None"
  by (cases t) (auto simp: digit_def)

lemma dict_set_fresh: "k \<notin> fst ` set acc \<Longrightarrow> dict_set k v acc = acc @ [(k, v)]"
  by (induction acc) auto

lemma hex_digit_ascii: "d < 16 \<Longrightarrow> hex_digit d < 128"
  by (simp add: hex_digit_def)

lemma u_escape_ascii: "list_all (\<lambda>c. c < 128) (u_escape n)"
  by (simp add: u_escape_def hex4_text_def hex_digit_ascii)

lemma escape_char_ascii: "list_all (\<lambda>c. c < 128) (escape_char True c)"
  by (simp add: escape_char_def u_escape_ascii)

lemma encode_string_ascii: "list_all (\<lambda>c. c < 128) (encode_string True s)"
  by (induction s) (simp_all add: encode_string_def escape_char_ascii)

lemma dec_ascii: "list_all (\<lambda>c. c < 128) (dec n)"
proof (induction n rule: dec.induct)
  case (1 n)
  show ?case
  proof (cases "n < 10")
    case True
    then show ?thesis by (subst dec.simps) simp
  next
    case False
    have "n mod 10 < 10" by simp
    then have "48 + n mod 10 < 128" by linarith
    with False "1.IH" show ?thesis by (subst dec.simps) simp
  qed
qed

lemma int_text_ascii: "list_all (\<lambda>c. c < 128) (int_text i)"
  by (simp add: int_text_def dec_ascii)

lemma parses_backI:
  assumes "starts_value t" and "list_all (\<lambda>c. c < 128) t"
    and "\<And>d. depth p \<le> d \<Longrightarrow> json_dumps I d True p = Inr t"
    and "\<And>f d r. length t \<le> f \<Longrightarrow> depth p \<le> d \<Longrightarrow> delimited r \<Longrightarrow>
           parse_value I f d (t @ r) = Inr (p, r)"
  shows "parses_back I p t"
  using assms by (simp add: parses_back_def)

lemma parses_backD:
  assumes "parses_back I p t"
  shows "starts_value t" and "list_all (\<lambda>c. c < 128) t"
    and "\<And>d. depth p \<le> d \<Longrightarrow> json_dumps I d True p = Inr t"
    and "\<And>f d r. length t \<le> f \<Longrightarrow> depth p \<le> d \<Longrightarrow> delimited r \<Longrightarrow>
           parse_value I f d (t @ r) = Inr (p, r)"
  using assms by (simp_all add: parses_back_def)

lemma parse_elems_rendered:
  assumes "xs \<noteq> []"
    and "\<forall>x\<in>set xs. \<exists>t. parses_back I x t"
  shows "\<exists>t. starts_value t \<and> list_all (\<lambda>c. c < 128) t \<and>
           (\<forall>d. max_depth xs \<le> d \<longrightarrow> dumps_elems I d True xs = Inr t) \<and>
           (\<forall>f d acc r. length t < f \<longrightarrow> max_depth xs \<le> d \<longrightarrow>
              parse_elems I f d acc (t @ 93 # r) = Inr (PList (acc @ xs), r))"
  using assms
proof (induction xs)
  case Nil
  then show ?case by simp
next
  case (Cons x xs)
  from Cons.prems(2) obtain tx where "parses_back I x tx"
    by auto
  note tx = parses_backD [OF this]
  show ?case
  proof (cases "xs = []")
    case True
    have "parse_elems I f d acc (tx @ 93 # r) = Inr (PList (acc @ [x]), r)"
      if "length tx < f" "max_depth [x] \<le> d" for f d acc r
    proof -
      from that(1) obtain f' where f: "f = Suc f'" "length tx \<le> f'"
        by (cases f) auto
      from that(2) have d: "depth x \<le> d" by simp
      have "parse_value I f' d (tx @ 93 # r) = Inr (x, 93 # r)"
        by (rule tx(4) [OF f(2) d]) simp
      then show ?thesis
        by (simp add: f(1) skip_ws_delimiter)
    qed
    moreover have "dumps_elems I d True [x] = Inr tx" if "max_depth [x] \<le> d" for d
      using that tx(3) [of d] by simp
    ultimately show ?thesis
      using True tx(1,2) by blast
  next
    case False
    with Cons.IH Cons.prems(2) obtain ts where
      ts: "starts_value ts" "list_all (\<lambda>c. c < 128) ts"
          "\<And>d. max_depth xs \<le> d \<Longrightarrow> dumps_elems I d True xs = Inr ts"
          "\<And>f d acc r. length ts < f \<Longrightarrow> max_depth xs \<le> d \<Longrightarrow>
              parse_elems I f d acc (ts @ 93 # r) = Inr (PList (acc @ xs), r)"
      by auto
    have rendered: "dumps_elems I d True (x # xs) = Inr (tx @ [44, 32] @ ts)"
      if "max_depth (x # xs) \<le> d" for d
      using that False tx(3) [of d] ts(3) [of d] by simp
    have "parse_elems I f d acc ((tx @ [44, 32] @ ts) @ 93 # r) =
            Inr (PList (acc @ x # xs), r)"
      if "length (tx @ [44, 32] @ ts) < f" "max_depth (x # xs) \<le> d" for f d acc r
    proof -
      from that(1) obtain f' where f: "f = Suc f'" "length tx \<le> f'" "length ts < f'"
        by (cases f) auto
      from that(2) have d: "depth x \<le> d" "max_depth xs \<le> d" by simp_all
      have "parse_value I f' d (tx @ 44 # 32 # ts @ 93 # r) = Inr (x, 44 # 32 # ts @ 93 # r)"
        by (rule tx(4) [OF f(2) d(1)]) simp
      moreover have "skip_ws (32 # ts @ 93 # r) = ts @ 93 # r"
        by (simp add: skip_ws_blank skip_ws_value [OF ts(1)])
      moreover have "parse_elems I f' d (acc @ [x]) (ts @ 93 # r) =
          Inr (PList ((acc @ [x]) @ xs), r)"
        by (rule ts(4) [OF f(3) d(2)])
      ultimately show ?thesis
        by (simp add: f(1) skip_ws_delimiter)
    qed
    moreover have "starts_value (tx @ [44, 32] @ ts)"
      using tx(1) by (cases tx) simp_all
    moreover have "list_all (\<lambda>c. c < 128) (tx @ [44, 32] @ ts)"
      using tx(2) ts(2) by simp
    ultimately show ?thesis
      using rendered by blast
  qed
qed

lemma parse_members_rendered:
  assumes "kvs \<noteq> []"
    and "\<forall>kv\<in>set kvs. str_key (fst kv) \<and> (\<exists>t. parses_back I (snd kv) t)"
  shows "\<exists>t. list_all (\<lambda>c. c < 128) t \<and>
           (\<forall>d. max_depth_items kvs \<le> d \<longrightarrow> dumps_items I d True kvs = Inr (34 # t)) \<and>
           (\<forall>f d acc r. length t < f \<longrightarrow> max_depth_items kvs \<le> d \<longrightarrow>
              distinct (map fst (acc @ kvs)) \<longrightarrow>
              parse_members I f d acc (34 # t @ 125 # r) = Inr (PDict (acc @ kvs), r))"
  using assms
proof (induction kvs)
  case Nil
  then show ?case by simp
next
  case (Cons kv kvs)
  obtain k v where kv: "kv = (k, v)" by (cases kv)
  from Cons.prems(2) kv obtain ks where ks: "k = PStr ks" "json_str ks"
    by (cases k) auto
  define e where "e = concat (map (escape_char True) ks)"
  have key: "encode_string True ks = 34 # e @ [34]"
    by (simp add: encode_string_def e_def)
  have e_ascii: "list_all (\<lambda>c. c < 128) e"
    using encode_string_ascii [of ks] by (simp add: key)
  have scan: "\<And>r. scan_string (e @ 34 # r) = Some (ks, r)"
    unfolding e_def by (rule scan_escaped [OF ks(2)])
  from Cons.prems(2) kv obtain tv where "parses_back I v tv"
    by auto
  note tv = parses_backD [OF this]
  have step: "parse_members I (Suc f') d acc (34 # e @ 34 # 58 # 32 # tv @ rest) =
      (case expect 125 (skip_ws rest) of
         Some r4 \<Rightarrow> Inr (PDict (dict_set k v acc), r4)
       | None \<Rightarrow>
           (case expect 44 (skip_ws rest) of
              Some r4 \<Rightarrow> parse_members I f' d (dict_set k v acc) (skip_ws r4)
            | None \<Rightarrow> syntax_error ''Expecting , delimiter''))"
    if "length tv \<le> f'" "depth v \<le> d" "delimited rest" for f' d acc rest
  proof -
    have "parse_value I f' d (tv @ rest) = Inr (v, rest)"
      by (rule tv(4) [OF that])
    moreover have "skip_ws (32 # tv @ rest) = tv @ rest"
      by (simp add: skip_ws_blank skip_ws_value [OF tv(1)])
    ultimately show ?thesis
      unfolding ks(1) by (simp add: scan skip_ws_delimiter)
  qed
  show ?case
  proof (cases "kvs = []")
    case True
    have rendered: "dumps_items I d True (kv # kvs) = Inr (34 # e @ [34, 58, 32] @ tv)"
      if "max_depth_items (kv # kvs) \<le> d" for d
      using that True kv ks(1) tv(3) [of d] key by simp
    have "parse_members I f d acc (34 # (e @ [34, 58, 32] @ tv) @ 125 # r) =
            Inr (PDict (acc @ kv # kvs), r)"
      if "length (e @ [34, 58, 32] @ tv) < f" "max_depth_items (kv # kvs) \<le> d"
         "distinct (map fst (acc @ kv # kvs))"
      for f d acc r
    proof -
      from that(1) obtain f' where f: "f = Suc f'" "length tv \<le> f'"
        by (cases f) auto
      from that(2) kv have d: "depth v \<le> d" by simp
      have fresh: "dict_set k v acc = acc @ [(k, v)]"
        using that(3) kv by (intro dict_set_fresh) auto
      have del: "delimited (125 # r)" by simp
      show ?thesis
        using step [OF f(2) d del, of acc] True kv
        by (simp add: f(1) fresh skip_ws_delimiter)
    qed
    moreover have "list_all (\<lambda>c. c < 128) (e @ [34, 58, 32] @ tv)"
      using e_ascii tv(2) by simp
    ultimately show ?thesis
      using rendered by blast
  next
    case False
    with Cons.IH Cons.prems(2) obtain ts where
      ts: "list_all (\<lambda>c. c < 128) ts"
          "\<And>d. max_depth_items kvs \<le> d \<Longrightarrow> dumps_items I d True kvs = Inr (34 # ts)"
          "\<And>f d acc r. length ts < f \<Longrightarrow> max_depth_items kvs \<le> d \<Longrightarrow>
              distinct (map fst (acc @ kvs)) \<Longrightarrow>
              parse_members I f d acc (34 # ts @ 125 # r) = Inr (PDict (acc @ kvs), r)"
      by auto
    have rendered: "dumps_items I d True (kv # kvs) =
        Inr (34 # e @ [34, 58, 32] @ tv @ [44, 32] @ 34 # ts)"
      if "max_depth_items (kv # kvs) \<le> d" for d
      using that False kv ks(1) tv(3) [of d] ts(2) [of d] key by simp
    have "parse_members I f d acc
            (34 # (e @ [34, 58, 32] @ tv @ [44, 32] @ 34 # ts) @ 125 # r) =
            Inr (PDict (acc @ kv # kvs), r)"
      if "length (e @ [34, 58, 32] @ tv @ [44, 32] @ 34 # ts) < f"
         "max_depth_items (kv # kvs) \<le> d"
         "distinct (map fst (acc @ kv # kvs))"
      for f d acc r
    proof -
      from that(1) obtain f' where f: "f = Suc f'" "length tv \<le> f'" "length ts < f'"
        by (cases f) auto
      from that(2) kv have d: "depth v \<le> d" "max_depth_items kvs \<le> d" by simp_all
      have fresh: "dict_set k v acc = acc @ [(k, v)]"
        using that(3) kv by (intro dict_set_fresh) auto
      have "distinct (map fst ((acc @ [(k, v)]) @ kvs))"
        using that(3) kv by simp
      from ts(3) [OF f(3) d(2) this, of r]
      have rest: "parse_members I f' d (acc @ [(k, v)]) (34 # ts @ 125 # r) =
          Inr (PDict (acc @ kv # kvs), r)"
        using kv by simp
      have "skip_ws (32 # 34 # ts @ 125 # r) = 34 # ts @ 125 # r"
        by (simp add: skip_ws_def ws_def)
      moreover have del: "delimited (44 # 32 # 34 # ts @ 125 # r)" by simp
      ultimately show ?thesis
        using rest step [OF f(2) d(1) del, of acc]
        by (simp add: f(1) fresh skip_ws_delimiter)
    qed
    moreover have "list_all (\<lambda>c. c < 128) (e @ [34, 58, 32] @ tv @ [44, 32] @ 34 # ts)"
      using e_ascii tv(2) ts(1) by simp
    ultimately show ?thesis
      using rendered by blast
  qed
qed

lemma parses_back_literal:
  "parses_back I PNone (ascii ''null'')"
  "parses_back I (PBool True) (ascii ''true'')"
  "parses_back I (PBool False) (ascii ''false'')"
proof -
  have "parse_value I f d (ascii ''null'' @ r) = Inr (PNone, r)" if "4 \<le> f" for f d r
    using that by (cases f) (simp_all add: ascii_def starts_with_def)
  then show "parses_back I PNone (ascii ''null'')"
    by (simp add: parses_back_def) (simp add: ascii_def)
  have "parse_value I f d (ascii ''true'' @ r) = Inr (PBool True, r)" if "4 \<le> f" for f d r
    using that by (cases f) (simp_all add: ascii_def starts_with_def)
  then show "parses_back I (PBool True) (ascii ''true'')"
    by (simp add: parses_back_def) (simp add: ascii_def)
  have "parse_value I f d (ascii ''false'' @ r) = Inr (PBool False, r)" if "5 \<le> f" for f d r
    using that by (cases f) (simp_all add: ascii_def starts_with_def)
  then show "parses_back I (PBool False) (ascii ''false'')"
    by (simp add: parses_back_def) (simp add: ascii_def)
qed

lemma parse_value_number:
  assumes "parse_number I (c # cs) = Some res" and "c = 45 \<or> digit c"
  shows "parse_value I (Suc f) d (c # cs) = res"
  using assms by (auto simp: starts_with_def ascii_def digit_def)

lemma parses_back_int:
  assumes "\<not> too_long I (length (dec (nat \<bar>i\<bar>)))"
  shows "parses_back I (PInt i) (int_text i)"
proof (rule parses_backI)
  obtain c cs where t: "int_text i = c # cs" "c = 45 \<or> (48 \<le> c \<and> c \<le> 57)"
    using int_text_head by blast
  then have c: "c = 45 \<or> digit c"
    by (simp add: digit_def)
  with t(1) show "starts_value (int_text i)"
    by auto
  show "list_all (\<lambda>c. c < 128) (int_text i)"
    by (rule int_text_ascii)
  show "json_dumps I d True (PInt i) = Inr (int_text i)" for d
    using assms by (simp add: int_repr_def)
  show "parse_value I f d (int_text i @ r) = Inr (PInt i, r)"
    if "length (int_text i) \<le> f" "delimited r" for f d r
  proof -
    from that(1) t(1) obtain f' where f: "f = Suc f'" by (cases f) auto
    have "parse_number I (c # cs @ r) = Some (Inr (PInt i, r))"
      using parse_number_int_text [OF that(2) assms] t(1) by simp
    from parse_value_number [OF this c] show ?thesis
      by (simp add: f t(1))
  qed
qed

lemma parses_back_float:
  assumes "float_literal t" and "float_repr I t = t"
  shows "parses_back I (PFloat t) t"
proof (rule parses_backI)
  from float_literal_text(2) [OF assms(1)] obtain c cs where
    t: "t = c # cs" "c = 45 \<or> digit c"
    by blast
  then show "starts_value t"
    by auto
  show "list_all (\<lambda>c. c < 128) t"
    by (rule float_literal_text(1) [OF assms(1)])
  show "json_dumps I d True (PFloat t) = Inr t" for d
    by (simp add: float_literal_float_text [OF assms(1)])
  show "parse_value I f d (t @ r) = Inr (PFloat t, r)"
    if "length t \<le> f" "delimited r" for f d r
  proof -
    from that(1) t(1) obtain f' where f: "f = Suc f'" by (cases f) auto
    have "parse_number I (c # cs @ r) = Some (Inr (PFloat t, r))"
      using parse_number_float [OF assms(1) that(2), of I] t(1) assms(2) by simp
    from parse_value_number [OF this t(2)] show ?thesis
      by (simp add: f t(1))
  qed
qed

lemma parses_back_infinity:
  "parses_back I (PFloat (ascii ''inf'')) (ascii ''Infinity'')"
  "parses_back I (PFloat (ascii ''-inf'')) (ascii ''-Infinity'')"
proof -
  have "parse_value I f d (ascii ''Infinity'' @ r) = Inr (PFloat (ascii ''inf''), r)"
    if "8 \<le> f" for f d r
    using that
    by (cases f) (simp_all add: ascii_def starts_with_def parse_number_def unsigned_def)
  moreover have "json_dumps I d True (PFloat (ascii ''inf'')) = Inr (ascii ''Infinity'')"
    for d
    by (simp add: float_text_def) (simp add: ascii_def)
  ultimately show "parses_back I (PFloat (ascii ''inf'')) (ascii ''Infinity'')"
    by (simp add: parses_back_def) (simp add: ascii_def)
  have "parse_value I f d (ascii ''-Infinity'' @ r) = Inr (PFloat (ascii ''-inf''), r)"
    if "9 \<le> f" for f d r
    using that
    by (cases f) (simp_all add: ascii_def starts_with_def parse_number_def unsigned_def)
  moreover have "json_dumps I d True (PFloat (ascii ''-inf'')) = Inr (ascii ''-Infinity'')"
    for d
    by (simp add: float_text_def) (simp add: ascii_def)
  ultimately show "parses_back I (PFloat (ascii ''-inf'')) (ascii ''-Infinity'')"
    by (simp add: parses_back_def) (simp add: ascii_def)
qed

lemma parses_back_str:
  assumes "json_str s"
  shows "parses_back I (PStr s) (encode_string True s)"
proof -
  have "parse_value I f d (encode_string True s @ r) = Inr (PStr s, r)"
    if "length (encode_string True s) \<le> f" for f d r
  proof -
    from that obtain f' where f: "f = Suc f'"
      by (cases f) (auto simp: encode_string_def)
    show ?thesis
      unfolding f by (simp add: encode_string_def scan_escaped [OF assms])
  qed
  moreover have "starts_value (encode_string True s)"
    by (simp add: encode_string_def)
  ultimately show ?thesis
    by (simp add: parses_back_def encode_string_ascii)
qed

lemma parses_back_rendered:
  "native I p \<Longrightarrow> \<exists>t. parses_back I p t"
proof (induction p)
  case PNone
  then show ?case by (blast intro: parses_back_literal)
next
  case (PBool b)
  then show ?case by (cases b) (auto intro: parses_back_literal)
next
  case (PInt i)
  then show ?case by (auto intro: parses_back_int)
next
  case (PFloat r)
  then show ?case
    by (auto simp: json_float_def intro: parses_back_float parses_back_infinity)
next
  case (PStr s)
  then show ?case by (auto intro: parses_back_str)
next
  case (PList xs)
  show ?case
  proof (cases "xs = []")
    case True
    have "parse_value I f d ([91, 93] @ r) = Inr (PList [], r)"
      if "2 \<le> f" "Suc 0 \<le> d" for f d r
      using that by (cases f) (simp_all add: skip_ws_delimiter)
    moreover have "json_dumps I d True (PList []) = Inr [91, 93]" if "Suc 0 \<le> d" for d
      using that by simp
    ultimately have "parses_back I (PList []) [91, 93]"
      by (simp add: parses_back_def)
    with True show ?thesis by blast
  next
    case False
    have "\<forall>x\<in>set xs. \<exists>t. parses_back I x t"
      using PList by simp
    from parse_elems_rendered [OF False this] obtain ts where
      ts: "starts_value ts" "list_all (\<lambda>c. c < 128) ts"
          "\<And>d. max_depth xs \<le> d \<Longrightarrow> dumps_elems I d True xs = Inr ts"
          "\<And>f d acc r. length ts < f \<Longrightarrow> max_depth xs \<le> d \<Longrightarrow>
              parse_elems I f d acc (ts @ 93 # r) = Inr (PList (acc @ xs), r)"
      by blast
    have "parses_back I (PList xs) (91 # ts @ [93])"
    proof (rule parses_backI)
      show "starts_value (91 # ts @ [93])" by simp
      show "list_all (\<lambda>c. c < 128) (91 # ts @ [93])"
        using ts(2) by simp
      show "json_dumps I d True (PList xs) = Inr (91 # ts @ [93])"
        if "depth (PList xs) \<le> d" for d
      proof -
        from that obtain d' where d: "d = Suc d'" "max_depth xs \<le> d'"
          by (cases d) auto
        from ts(3) [OF d(2)] show ?thesis
          by (simp add: d(1))
      qed
      show "parse_value I f d ((91 # ts @ [93]) @ r) = Inr (PList xs, r)"
        if "length (91 # ts @ [93]) \<le> f" "depth (PList xs) \<le> d" for f d r
      proof -
        from that(1) obtain f' where f: "f = Suc f'" "length ts < f'"
          by (cases f) auto
        from that(2) obtain d' where d: "d = Suc d'" "max_depth xs \<le> d'"
          by (cases d) auto
        from ts(4) [OF f(2) d(2), of "[]" r] no_bracket [OF ts(1), of "93 # r"]
        show ?thesis
          unfolding f(1) d(1) by (simp add: skip_ws_value [OF ts(1)])
      qed
    qed
    then show ?thesis by blast
  qed
next
  case (PTuple xs)
  then show ?case by simp
next
  case (PDict kvs)
  show ?case
  proof (cases "kvs = []")
    case True
    have "parse_value I f d ([123, 125] @ r) = Inr (PDict [], r)"
      if "2 \<le> f" "Suc 0 \<le> d" for f d r
      using that by (cases f) (simp_all add: skip_ws_delimiter)
    moreover have "json_dumps I d True (PDict []) = Inr [123, 125]" if "Suc 0 \<le> d" for d
      using that by simp
    ultimately have "parses_back I (PDict []) [123, 125]"
      by (simp add: parses_back_def)
    with True show ?thesis by blast
  next
    case False
    have "\<forall>kv\<in>set kvs. str_key (fst kv) \<and> (\<exists>t. parses_back I (snd kv) t)"
    proof
      fix kv assume kv: "kv \<in> set kvs"
      then have "str_key (fst kv)" "native I (snd kv)"
        using PDict.prems by auto
      moreover have "snd kv \<in> Basic_BNFs.snds kv"
        by (cases kv) simp
      ultimately show "str_key (fst kv) \<and> (\<exists>t. parses_back I (snd kv) t)"
        using PDict.IH kv by blast
    qed
    from parse_members_rendered [OF False this] obtain ts where
      ts: "list_all (\<lambda>c. c < 128) ts"
          "\<And>d. max_depth_items kvs \<le> d \<Longrightarrow> dumps_items I d True kvs = Inr (34 # ts)"
          "\<And>f d acc r. length ts < f \<Longrightarrow> max_depth_items kvs \<le> d \<Longrightarrow>
              distinct (map fst (acc @ kvs)) \<Longrightarrow>
              parse_members I f d acc (34 # ts @ 125 # r) = Inr (PDict (acc @ kvs), r)"
      by blast
    have dist: "distinct (map fst ([] @ kvs))"
      using PDict.prems by simp
    have "parses_back I (PDict kvs) (123 # (34 # ts) @ [125])"
    proof (rule parses_backI)
      show "starts_value (123 # (34 # ts) @ [125])" by simp
      show "list_all (\<lambda>c. c < 128) (123 # (34 # ts) @ [125])"
        using ts(1) by simp
      show "json_dumps I d True (PDict kvs) = Inr (123 # (34 # ts) @ [125])"
        if "depth (PDict kvs) \<le> d" for d
      proof -
        from that obtain d' where d: "d = Suc d'" "max_depth_items kvs \<le> d'"
          by (cases d) auto
        from ts(2) [OF d(2)] show ?thesis
          by (simp add: d(1))
      qed
      show "parse_value I f d ((123 # (34 # ts) @ [125]) @ r) = Inr (PDict kvs, r)"
        if "length (123 # (34 # ts) @ [125]) \<le> f" "depth (PDict kvs) \<le> d" for f d r
      proof -
        from that(1) obtain f' where f: "f = Suc f'" "length ts < f'"
          by (cases f) auto
        from that(2) obtain d' where d: "d = Suc d'" "max_depth_items kvs \<le> d'"
          by (cases d) auto
        from ts(3) [OF f(2) d(2) dist, of r]
        show ?thesis
          unfolding f(1) d(1) by (simp add: skip_ws_def ws_def)
      qed
    qed
    then show ?thesis by blast
  qed
next
  case (PObject c)
  then show ?case by simp
qed

subsection \<open>The encoder writes ASCII, which UTF-8 leaves as it is\<close>

lemma utf8_encode_ascii: "list_all (\<lambda>c. c < 128) t \<Longrightarrow> utf8_encode t = Some t"
  by (induction t) simp_all

lemma utf8_decode_ascii: "list_all (\<lambda>c. c < 128) t \<Longrightarrow> utf8_decode t = Some t"
  by (induction t rule: utf8_decode.induct) simp_all

lemma bytes_of_ascii:
  fixes t :: "nat list"
  shows "list_all (\<lambda>c. c < 128) t \<Longrightarrow> map (of_char \<circ> (char_of :: nat \<Rightarrow> char)) t = t"
  by (induction t) simp_all

lemma decode_encode_ascii:
  assumes "list_all (\<lambda>c. c < 128) t"
  shows "encode t = Inr (map char_of t)" and "decode (map char_of t) = Inr t"
  using assms
  by (simp_all add: encode_def decode_def utf8_encode_ascii utf8_decode_ascii bytes_of_ascii)

lemma json_loads_rendered:
  assumes "parses_back I p t" and "depth p \<le> decoder_depth I"
  shows "json_loads I t = Inr p"
proof -
  note t = parses_backD [OF assms(1)]
  have "parse_value I (Suc (length t)) (decoder_depth I) (t @ []) = Inr (p, [])"
    by (rule t(4) [OF _ assms(2)]) simp_all
  then have "parse_value I (Suc (length t)) (decoder_depth I) t = Inr (p, [])"
    by simp
  moreover from t(1) have "skip_ws (t @ []) = t @ []"
    by (rule skip_ws_value)
  then have "skip_ws t = t"
    by simp
  ultimately show ?thesis
    by (simp add: json_loads_def) (simp add: skip_ws_def)
qed

lemma round_trip_rendered:
  assumes "parses_back (interpreter w) p t"
    and "depth p \<le> encoder_depth (interpreter w)"
    and "depth p \<le> decoder_depth (interpreter w)"
  shows "round_trip w p = Inr p"
proof -
  note t = parses_backD [OF assms(1)]
  from t(3) [OF assms(2)] have "serialize w p True = Inr t"
    by (simp add: serialize_def)
  moreover have "deserialize w (map char_of t) = Inr p"
    by (simp add: deserialize_def decode_encode_ascii(2) [OF t(2)]
          json_loads_rendered [OF assms(1,3)])
  ultimately show ?thesis
    by (simp add: round_trip_def decode_encode_ascii(1) [OF t(2)])
qed

lemma dec_small: "n < 10 \<Longrightarrow> dec n = [48 + n]"
  by (subst dec.simps) simp

lemma same_text_same_round_trip:
  assumes "serialize w p True = serialize w p' True"
  shows "round_trip w p = round_trip w p'"
  using assms by (simp add: round_trip_def)

lemma native_round_trip:
  assumes "native (interpreter w) p"
    and "depth p \<le> encoder_depth (interpreter w)"
    and "depth p \<le> decoder_depth (interpreter w)"
  shows "round_trip w p = Inr p"
proof -
  from parses_back_rendered [OF assms(1)] obtain t where
    "parses_back (interpreter w) p t"
    by blast
  then show ?thesis
    using assms(2,3) by (rule round_trip_rendered)
qed

section \<open>The round trip through the codec holds for JSON's own values\<close>


text \<open>
  The other payloads that do not come back as they went, or do not come back at all. A
  dictionary key that is no string comes back as a string; a high surrogate directly
  before a low surrogate comes back as the one code point that the two encode; an
  integer longer than the interpreter's digit limit raises \<^verbatim>\<open>ValueError\<close>; a payload
  nested deeper than the interpreter lets the encoder go raises \<^verbatim>\<open>RecursionError\<close>.
\<close>

lemma int_key_comes_back_as_str:
  "round_trip world_up (PDict [(PInt 1, PNone)]) = Inr (PDict [(PStr (ascii ''1''), PNone)])"
proof -
  have "round_trip world_up (PDict [(PInt 1, PNone)]) =
        round_trip world_up (PDict [(PStr (ascii ''1''), PNone)])"
    by (rule same_text_same_round_trip)
      (simp add: serialize_def world_up_def sample_interpreter_def int_repr_def too_long_def
         int_text_def dec_small ascii_def)
  moreover have "round_trip world_up (PDict [(PStr (ascii ''1''), PNone)]) =
      Inr (PDict [(PStr (ascii ''1''), PNone)])"
    by (rule native_round_trip)
      (simp_all add: world_up_def sample_interpreter_def json_str_def ascii_def)
  ultimately show ?thesis
    by simp
qed

lemma surrogate_pair_comes_back_joined:
  "round_trip world_up (PStr [0xD83D, 0xDE00]) = Inr (PStr [0x1F600])"
proof -
  have "round_trip world_up (PStr [0xD83D, 0xDE00]) = round_trip world_up (PStr [0x1F600])"
    by (rule same_text_same_round_trip)
      (simp add: serialize_def encode_string_def escape_char_def)
  moreover have "round_trip world_up (PStr [0x1F600]) = Inr (PStr [0x1F600])"
    by (rule native_round_trip) (simp_all add: json_str_def)
  ultimately show ?thesis
    by simp
qed

lemma long_integer_raises:
  assumes "too_long (interpreter w) (length (dec (nat \<bar>i\<bar>)))"
  shows "round_trip w (PInt i) = digit_limit_error"
  using assms by (simp add: round_trip_def serialize_def int_repr_def digit_limit_error_def)

lemma dumps_elems_too_deep:
  assumes "\<forall>x\<in>set xs. native I x"
    and "\<And>x. x \<in> set xs \<Longrightarrow> d < depth x \<Longrightarrow> json_dumps I d True x = recursion_error"
    and "d < max_depth xs"
  shows "dumps_elems I d True xs = recursion_error"
  using assms
proof (induction xs)
  case Nil
  then show ?case by simp
next
  case (Cons x xs)
  show ?case
  proof (cases "d < depth x")
    case True
    with Cons.prems(2) [of x] show ?thesis
      by (simp add: recursion_error_def)
  next
    case False
    from Cons.prems(1) have "native I x" by simp
    from parses_back_rendered [OF this] obtain t where "parses_back I x t"
      by blast
    from parses_backD(3) [OF this, of d] False have t: "json_dumps I d True x = Inr t"
      by simp
    from False Cons.prems(3) have deep: "d < max_depth xs"
      by simp
    then have "xs \<noteq> []"
      by auto
    moreover have "dumps_elems I d True xs = recursion_error"
      using Cons.prems(1,2) deep by (intro Cons.IH) simp_all
    ultimately show ?thesis
      using t by (simp add: recursion_error_def)
  qed
qed

lemma dumps_items_too_deep:
  assumes "\<forall>kv\<in>set kvs. str_key (fst kv) \<and> native I (snd kv)"
    and "\<And>kv. kv \<in> set kvs \<Longrightarrow> d < depth (snd kv) \<Longrightarrow>
           json_dumps I d True (snd kv) = recursion_error"
    and "d < max_depth_items kvs"
  shows "dumps_items I d True kvs = recursion_error"
  using assms
proof (induction kvs)
  case Nil
  then show ?case by simp
next
  case (Cons kv kvs)
  obtain k v where kv: "kv = (k, v)" by (cases kv)
  from Cons.prems(1) kv obtain ks where ks: "k = PStr ks"
    by (cases k) auto
  show ?case
  proof (cases "d < depth v")
    case True
    with Cons.prems(2) [of kv] kv ks show ?thesis
      by (simp add: recursion_error_def)
  next
    case False
    from Cons.prems(1) kv have "native I v" by simp
    from parses_back_rendered [OF this] obtain t where "parses_back I v t"
      by blast
    from parses_backD(3) [OF this, of d] False have t: "json_dumps I d True v = Inr t"
      by simp
    from False Cons.prems(3) kv have deep: "d < max_depth_items kvs"
      by simp
    then have "kvs \<noteq> []"
      by auto
    moreover have "dumps_items I d True kvs = recursion_error"
      using Cons.prems(1,2) deep by (intro Cons.IH) simp_all
    ultimately show ?thesis
      using t kv ks by (simp add: recursion_error_def)
  qed
qed

lemma dumps_too_deep:
  "native I p \<Longrightarrow> d < depth p \<Longrightarrow> json_dumps I d True p = recursion_error"
proof (induction p arbitrary: d)
  case (PList xs)
  show ?case
  proof (cases d)
    case 0
    then show ?thesis by simp
  next
    case (Suc d')
    have "dumps_elems I d' True xs = recursion_error"
    proof (rule dumps_elems_too_deep)
      show "\<forall>x\<in>set xs. native I x"
        using PList.prems(1) by simp
      show "json_dumps I d' True x = recursion_error" if "x \<in> set xs" "d' < depth x" for x
        using that PList.prems(1) by (intro PList.IH) simp_all
      show "d' < max_depth xs"
        using PList.prems(2) Suc by simp
    qed
    then show ?thesis
      by (simp add: Suc recursion_error_def)
  qed
next
  case (PDict kvs)
  show ?case
  proof (cases d)
    case 0
    then show ?thesis by simp
  next
    case (Suc d')
    have "dumps_items I d' True kvs = recursion_error"
    proof (rule dumps_items_too_deep)
      show "\<forall>kv\<in>set kvs. str_key (fst kv) \<and> native I (snd kv)"
        using PDict.prems(1) by simp
      show "json_dumps I d' True (snd kv) = recursion_error"
        if "kv \<in> set kvs" "d' < depth (snd kv)" for kv
      proof -
        have "snd kv \<in> Basic_BNFs.snds kv"
          by (cases kv) simp
        moreover from that(1) PDict.prems(1) have "native I (snd kv)"
          by simp
        ultimately show ?thesis
          using that by (intro PDict.IH)
      qed
      show "d' < max_depth_items kvs"
        using PDict.prems(2) Suc by simp
    qed
    then show ?thesis
      by (simp add: Suc recursion_error_def)
  qed
qed simp_all

lemma deep_nesting_raises:
  assumes "native (interpreter w) p" and "encoder_depth (interpreter w) < depth p"
  shows "round_trip w p = recursion_error"
  using dumps_too_deep [OF assms]
  by (simp add: round_trip_def serialize_def recursion_error_def)



end
